theory Spec2Isabelle
  imports Complex_Main "HOL-Library.Multiset"
begin

section \<open>FillWrds: grid generation (grid.js) and selection validation (validator.js)\<close>

text \<open>
  JavaScript strings are sequences of UTF-16 code units; a code unit is modelled by its
  number, so \<open>word.length\<close> is \<open>length\<close>, \<open>word[i]\<close> is \<open>word ! i\<close> and
  \<open>s.split('').reverse().join('')\<close> is \<open>rev s\<close>.

  \<open>String.prototype.toLowerCase\<close> belongs to the JavaScript runtime, not to the
  repository. Every function that calls it takes it as its first parameter \<open>lc\<close>;
  \<open>asciiLower\<close> is the runtime's function on ASCII strings and is used at concrete inputs.
\<close>

type_synonym jschar = nat
type_synonym jsstring = "jschar list"

definition str :: "string \<Rightarrow> jsstring" where
  "str s = map of_char s"

definition asciiLowerChar :: "jschar \<Rightarrow> jschar" where
  "asciiLowerChar c = (if 65 \<le> c \<and> c \<le> 90 then c + 32 else c)"

definition asciiLower :: "jsstring \<Rightarrow> jsstring" where
  "asciiLower s = map asciiLowerChar s"

text \<open>
  What a grid cell can hold: \<open>null\<close> (an unset cell of \<open>createEmptyGrid\<close>), a
  one-character string, or \<open>undefined\<close> (what reading past the end of a row gives, and what
  \<open>randomChar\<close> returns for a language code that names an inherited property).
\<close>

datatype jsval = Undefined | Null | Ch jschar

type_synonym grid = "jsval list list"

record cell =
  row :: int
  col :: int

datatype error = TypeError | OutOfMatrix

subsection \<open>validator.js\<close>

text \<open>The object \<open>DIRECTION_NAMES\<close> of validator.js, keyed by \<open>`${dr},${dc}`\<close>.\<close>

definition V_DIRECTION_NAMES :: "int \<times> int \<Rightarrow> string option" where
  "V_DIRECTION_NAMES k =
     (if k = (0, 1) then Some ''right''
      else if k = (0, -1) then Some ''left''
      else if k = (1, 0) then Some ''down''
      else if k = (-1, 0) then Some ''up''
      else if k = (1, 1) then Some ''down-right''
      else if k = (1, -1) then Some ''down-left''
      else if k = (-1, 1) then Some ''up-right''
      else if k = (-1, -1) then Some ''up-left''
      else None)"

record lineDir =
  ld_dr :: int
  ld_dc :: int
  dirName :: "string option"

text \<open>The loop of \<open>getLineDirection\<close>: every consecutive pair has the delta (dr, dc).\<close>

fun sameDelta :: "int \<Rightarrow> int \<Rightarrow> cell list \<Rightarrow> bool" where
  "sameDelta dr dc (a # b # cs) =
     (if row b - row a \<noteq> dr \<or> col b - col a \<noteq> dc then False
      else sameDelta dr dc (b # cs))"
| "sameDelta dr dc cs = True"

definition getLineDirection :: "cell list \<Rightarrow> lineDir option" where
  "getLineDirection cells =
     (case cells of
        a # b # rest \<Rightarrow>
          (let dr = row b - row a; dc = col b - col a in
           if \<not> sameDelta dr dc cells then None
           else (case V_DIRECTION_NAMES (dr, dc) of
                   None \<Rightarrow> None
                 | Some n \<Rightarrow> Some \<lparr>ld_dr = dr, ld_dc = dc, dirName = Some n\<rparr>))
      | _ \<Rightarrow> Some \<lparr>ld_dr = 0, ld_dc = 0, dirName = None\<rparr>)"

text \<open>
  \<open>cells.filter((c, i) => i === 0 || c differs from cells[i - 1])\<close>: the first cell is
  kept, a later one is kept when it differs from its predecessor in the input.
\<close>

fun dedupFrom :: "cell \<Rightarrow> cell list \<Rightarrow> cell list" where
  "dedupFrom p [] = []"
| "dedupFrom p (c # cs) =
     (if row c \<noteq> row p \<or> col c \<noteq> col p then c # dedupFrom c cs else dedupFrom c cs)"

definition dedup :: "cell list \<Rightarrow> cell list" where
  "dedup cells = (case cells of [] \<Rightarrow> [] | c # cs \<Rightarrow> c # dedupFrom c cs)"

definition normalizeSelection :: "cell list \<Rightarrow> cell list option" where
  "normalizeSelection cells =
     (if cells = [] then None
      else let deduped = dedup cells in
        if length deduped = 0 then None
        else if length deduped = 1 then Some deduped
        else if getLineDirection deduped \<noteq> None then Some deduped else None)"

record selectionResult =
  valid :: bool
  found :: bool
  sr_word :: "jsstring option"
  sr_direction :: "string option"
  startCell :: "cell option"
  sr_cells :: "cell list"

definition EMPTY :: selectionResult where
  "EMPTY = \<lparr>valid = False, found = False, sr_word = None, sr_direction = None,
            startCell = None, sr_cells = []\<rparr>"

definition outOfBounds :: "nat \<Rightarrow> cell \<Rightarrow> bool" where
  "outOfBounds sz c = (row c < 0 \<or> row c \<ge> int sz \<or> col c < 0 \<or> col c \<ge> int sz)"

text \<open>
  \<open>grid[row][col]\<close>: when \<open>grid[row]\<close> is \<open>undefined\<close> the second index raises a
  TypeError; an index outside the row reads \<open>undefined\<close>.
\<close>

definition gridAt :: "grid \<Rightarrow> int \<Rightarrow> int \<Rightarrow> error + jsval" where
  "gridAt g r c =
     (if 0 \<le> r \<and> r < int (length g) then
        (let line = g ! nat r in
         if 0 \<le> c \<and> c < int (length line) then Inr (line ! nat c) else Inr Undefined)
      else Inl TypeError)"

text \<open>\<open>Array.prototype.join('')\<close> renders \<open>undefined\<close> and \<open>null\<close> as the empty string.\<close>

fun joinVal :: "jsval \<Rightarrow> jsstring" where
  "joinVal (Ch c) = [c]"
| "joinVal v = []"

fun readCells :: "grid \<Rightarrow> cell list \<Rightarrow> error + jsval list" where
  "readCells g [] = Inr []"
| "readCells g (c # cs) =
     (case gridAt g (row c) (col c) of
        Inl e \<Rightarrow> Inl e
      | Inr v \<Rightarrow> (case readCells g cs of Inl e \<Rightarrow> Inl e | Inr vs \<Rightarrow> Inr (v # vs)))"

definition firstCell :: "cell list \<Rightarrow> cell option" where
  "firstCell cs = (case cs of [] \<Rightarrow> None | c # _ \<Rightarrow> Some c)"

definition checkSelection ::
  "(jsstring \<Rightarrow> jsstring) \<Rightarrow> grid \<Rightarrow> cell list \<Rightarrow> jsstring list \<Rightarrow> error + selectionResult" where
  "checkSelection lc g cells targetWords =
     (case normalizeSelection cells of
        None \<Rightarrow> Inr EMPTY
      | Some normalized \<Rightarrow>
          let sz = length g in
          if list_ex (outOfBounds sz) normalized then Inr EMPTY
          else (case readCells g normalized of
             Inl e \<Rightarrow> Inl e
           | Inr vals \<Rightarrow>
               let selected = concat (map joinVal vals);
                   reversed = rev selected;
                   targetSet = set (map lc targetWords);
                   (matchedWord, matchedCells) =
                     (if lc selected \<in> targetSet then (Some (lc selected), normalized)
                      else if lc reversed \<in> targetSet then (Some (lc reversed), rev normalized)
                      else (None, normalized))
               in (case matchedWord of
                     None \<Rightarrow> Inr \<lparr>valid = True, found = False, sr_word = None,
                                sr_direction = None, startCell = None, sr_cells = normalized\<rparr>
                   | Some w \<Rightarrow>
                       if w = [] then
                         Inr \<lparr>valid = True, found = False, sr_word = None,
                              sr_direction = None, startCell = None, sr_cells = normalized\<rparr>
                       else
                         Inr \<lparr>valid = True, found = True, sr_word = Some w,
                              sr_direction =
                                (case getLineDirection matchedCells of
                                   None \<Rightarrow> None | Some d \<Rightarrow> dirName d),
                              startCell = firstCell matchedCells,
                              sr_cells = matchedCells\<rparr>)))"

text \<open>
  The index pairs with which \<open>checkSelection\<close> reads the grid. Its only read is the map of
  the normalized cells to \<open>grid[row][col]\<close>, which is reached with a normalized selection
  that has passed the bounds check; the map reads the cells in order and stops at a read that
  raises.
\<close>

fun readIndices :: "grid \<Rightarrow> cell list \<Rightarrow> (int \<times> int) list" where
  "readIndices g [] = []"
| "readIndices g (c # cs) =
     (row c, col c) #
       (case gridAt g (row c) (col c) of Inl e \<Rightarrow> [] | Inr v \<Rightarrow> readIndices g cs)"

definition gridReads :: "grid \<Rightarrow> cell list \<Rightarrow> (int \<times> int) list" where
  "gridReads g cells =
     (case normalizeSelection cells of
        None \<Rightarrow> []
      | Some normalized \<Rightarrow>
          if list_ex (outOfBounds (length g)) normalized then []
          else readIndices g normalized)"

definition isGameWon :: "(jsstring \<Rightarrow> jsstring) \<Rightarrow> jsstring list \<Rightarrow> jsstring list \<Rightarrow> bool" where
  "isGameWon lc foundWords targetWords =
     (if length targetWords = 0 then False
      else let found_set = set (map lc foundWords) in
        list_all (\<lambda>w. lc w \<in> found_set) targetWords)"

subsection \<open>The random source\<close>

text \<open>
  \<open>Math.random()\<close> is modelled by an infinite sequence of raw draws, consumed from the
  front. \<open>Math.floor(Math.random() * n)\<close> is an integer of \<open>[0, n)\<close> for positive \<open>n\<close> and
  \<open>0\<close> for \<open>n = 0\<close>; every such integer is the outcome for some sequence, and the
  properties below hold for every sequence.
\<close>

type_synonym rng = "nat \<Rightarrow> nat"

definition randomInt :: "nat \<Rightarrow> rng \<Rightarrow> nat \<times> rng" where
  "randomInt n rnd = ((if n = 0 then 0 else rnd 0 mod n), (\<lambda>i. rnd (Suc i)))"

subsection \<open>alphabets.js\<close>

text \<open>
  What \<open>ALPHABETS[lang]\<close> can find. \<open>ALPHABETS\<close> is an object literal, so besides its
  own four strings the lookup finds the properties that every object inherits from
  \<open>Object.prototype\<close>: eleven functions and, under \<open>__proto__\<close>, the prototype object. None of
  them is \<open>null\<close> or \<open>undefined\<close>, and none has a property at an integer index.
\<close>

datatype jsprop = Letters jsstring | Inherited

definition objectPrototypeKeys :: "string list" where
  "objectPrototypeKeys =
     [''constructor'', ''hasOwnProperty'', ''isPrototypeOf'', ''propertyIsEnumerable'',
      ''toLocaleString'', ''toString'', ''valueOf'', ''__proto__'', ''__defineGetter__'',
      ''__defineSetter__'', ''__lookupGetter__'', ''__lookupSetter__'']"

definition ALPHABETS :: "string \<Rightarrow> jsprop option" where
  "ALPHABETS lang =
     (if lang = ''en'' then Some (Letters (str ''abcdefghijklmnopqrstuvwxyz''))
      else if lang = ''ru'' then
        Some (Letters [1072, 1073, 1074, 1075, 1076, 1077, 1105, 1078, 1079, 1080, 1081, 1082, 1083,
              1084, 1085, 1086, 1087, 1088, 1089, 1090, 1091, 1092, 1093, 1094, 1095, 1096,
              1097, 1098, 1099, 1100, 1101, 1102, 1103])
      else if lang = ''be'' then
        Some (Letters [1072, 1073, 1074, 1075, 1076, 1077, 1105, 1078, 1079, 1110, 1081, 1082, 1083,
              1084, 1085, 1086, 1087, 1088, 1089, 1090, 1091, 1118, 1092, 1093, 1094, 1095,
              1096, 1099, 1100, 1101, 1102, 1103])
      else if lang = ''uk'' then
        Some (Letters [1072, 1073, 1074, 1075, 1169, 1076, 1077, 1108, 1078, 1079, 1080, 1110, 1111,
              1081, 1082, 1083, 1084, 1085, 1086, 1087, 1088, 1089, 1090, 1091, 1092, 1093,
              1094, 1095, 1096, 1097, 1100, 1102, 1103])
      else if lang \<in> set objectPrototypeKeys then Some Inherited
      else None)"

text \<open>\<open>ALPHABETS[lang] ?? ALPHABETS.en\<close>: the fallback is taken only for a missing property.\<close>

definition alphabetOf :: "string \<Rightarrow> jsprop" where
  "alphabetOf lang =
     (case ALPHABETS lang of
        None \<Rightarrow> Letters (str ''abcdefghijklmnopqrstuvwxyz'')
      | Some a \<Rightarrow> a)"

text \<open>
  \<open>alphabet[Math.floor(Math.random() * alphabet.length)]\<close>. On an inherited property the
  product is a number or \<open>NaN\<close>, one draw is consumed, and the indexed read is \<open>undefined\<close>.
\<close>

definition randomChar :: "string \<Rightarrow> rng \<Rightarrow> jsval \<times> rng" where
  "randomChar lang rnd =
     (case alphabetOf lang of
        Letters alphabet \<Rightarrow>
          (let (k, rnd') = randomInt (length alphabet) rnd
           in ((if k < length alphabet then Ch (alphabet ! k) else Undefined), rnd'))
      | Inherited \<Rightarrow> (Undefined, (\<lambda>i. rnd (Suc i))))"

subsection \<open>grid.js\<close>

definition DIRECTIONS :: "(int \<times> int) list" where
  "DIRECTIONS = [(0, 1), (0, -1), (1, 0), (-1, 0), (1, 1), (1, -1), (-1, 1), (-1, -1)]"

definition DIRECTION_NAMES :: "string list" where
  "DIRECTION_NAMES =
     [''right'', ''left'', ''down'', ''up'', ''down-right'', ''down-left'', ''up-right'',
      ''up-left'']"

definition createEmptyGrid :: "nat \<Rightarrow> grid" where
  "createEmptyGrid sz = replicate sz (replicate sz Null)"

text \<open>Fisher-Yates: \<open>for (i = a.length - 1; i > 0; i--)\<close>, swapping \<open>a[i]\<close> and \<open>a[j]\<close>.\<close>

fun shuffleLoop :: "nat \<Rightarrow> 'a list \<Rightarrow> rng \<Rightarrow> 'a list \<times> rng" where
  "shuffleLoop 0 a rnd = (a, rnd)"
| "shuffleLoop (Suc k) a rnd =
     (let i = Suc k;
          (j, rnd') = randomInt (i + 1) rnd
      in shuffleLoop k (a[i := a ! j, j := a ! i]) rnd')"

definition shuffle :: "'a list \<Rightarrow> rng \<Rightarrow> 'a list \<times> rng" where
  "shuffle arr rnd = shuffleLoop (length arr - 1) arr rnd"

text \<open>
  The body of the loop of \<open>canPlace\<close> at index \<open>i\<close>: False where the source returns
  false. The read \<open>grid[r][c]\<close> comes after the bounds check against \<open>grid.length\<close>.
\<close>

definition canPlaceAt :: "grid \<Rightarrow> jsstring \<Rightarrow> int \<Rightarrow> int \<Rightarrow> int \<Rightarrow> int \<Rightarrow> nat \<Rightarrow> bool" where
  "canPlaceAt g word row0 col0 dr dc i =
     (let sz = int (length g);
          r = row0 + int i * dr;
          c = col0 + int i * dc
      in if r < 0 \<or> r \<ge> sz \<or> c < 0 \<or> c \<ge> sz then False
         else (case gridAt g r c of
                 Inl e \<Rightarrow> False
               | Inr v \<Rightarrow> \<not> (v \<noteq> Null \<and> v \<noteq> Ch (word ! i))))"

function canPlaceLoop :: "grid \<Rightarrow> jsstring \<Rightarrow> int \<Rightarrow> int \<Rightarrow> int \<Rightarrow> int \<Rightarrow> nat \<Rightarrow> bool" where
  "canPlaceLoop g word row0 col0 dr dc i =
     (if i < length word then
        (if canPlaceAt g word row0 col0 dr dc i
         then canPlaceLoop g word row0 col0 dr dc (Suc i) else False)
      else True)"
  by pat_completeness auto
termination
  by (relation "measure (\<lambda>(g, word, row0, col0, dr, dc, i). length word - i)") auto

declare canPlaceLoop.simps [simp del]

definition canPlace :: "grid \<Rightarrow> jsstring \<Rightarrow> int \<Rightarrow> int \<Rightarrow> int \<Rightarrow> int \<Rightarrow> bool" where
  "canPlace g word row0 col0 dr dc = canPlaceLoop g word row0 col0 dr dc 0"

text \<open>
  \<open>grid[r][c] = v\<close>. When \<open>grid[r]\<close> is \<open>undefined\<close> the store raises a TypeError. A
  column outside the row would grow the row or add a property to it; the model reports that
  as \<open>OutOfMatrix\<close> instead of continuing with a grid that is no longer a matrix.
\<close>

definition gridSet :: "grid \<Rightarrow> int \<Rightarrow> int \<Rightarrow> jsval \<Rightarrow> error + grid" where
  "gridSet g r c v =
     (if 0 \<le> r \<and> r < int (length g) then
        (let line = g ! nat r in
         if 0 \<le> c \<and> c < int (length line) then Inr (g[nat r := line[nat c := v]])
         else Inl OutOfMatrix)
      else Inl TypeError)"

function placeWordLoop :: "grid \<Rightarrow> jsstring \<Rightarrow> int \<Rightarrow> int \<Rightarrow> int \<Rightarrow> int \<Rightarrow> nat \<Rightarrow> error + grid" where
  "placeWordLoop g word row0 col0 dr dc i =
     (if i < length word then
        (case gridSet g (row0 + int i * dr) (col0 + int i * dc) (Ch (word ! i)) of
           Inl e \<Rightarrow> Inl e
         | Inr g' \<Rightarrow> placeWordLoop g' word row0 col0 dr dc (Suc i))
      else Inr g)"
  by pat_completeness auto
termination
  by (relation "measure (\<lambda>(g, word, row0, col0, dr, dc, i). length word - i)") auto

declare placeWordLoop.simps [simp del]

definition placeWord :: "grid \<Rightarrow> jsstring \<Rightarrow> int \<Rightarrow> int \<Rightarrow> int \<Rightarrow> int \<Rightarrow> error + grid" where
  "placeWord g word row0 col0 dr dc = placeWordLoop g word row0 col0 dr dc 0"

record placement =
  p_word :: jsstring
  p_row :: int
  p_col :: int
  p_direction :: string
  p_dr :: int
  p_dc :: int
  p_cells :: "cell list"

text \<open>\<open>Array.from({ length: word.length }, (_, i) => ({ row: row + i * dr, col: col + i * dc }))\<close>\<close>

definition cellsOf :: "jsstring \<Rightarrow> int \<Rightarrow> int \<Rightarrow> int \<Rightarrow> int \<Rightarrow> cell list" where
  "cellsOf word row0 col0 dr dc =
     map (\<lambda>i. \<lparr>row = row0 + int i * dr, col = col0 + int i * dc\<rparr>) [0..<length word]"

function tryPlaceLoop ::
  "grid \<Rightarrow> jsstring \<Rightarrow> ((int \<times> int) \<times> string) list \<Rightarrow> nat \<Rightarrow> nat \<Rightarrow> rng
     \<Rightarrow> error + (placement option \<times> grid \<times> rng)" where
  "tryPlaceLoop g word dirs maxAttempts attempt rnd =
     (if attempt < maxAttempts then
        (let sz = length g;
             (row0, rnd1) = randomInt sz rnd;
             (col0, rnd2) = randomInt sz rnd1
         in if length dirs = 0 then Inl TypeError
            else (case dirs ! (attempt mod length dirs) of ((dr, dc), name) \<Rightarrow>
              if canPlace g word (int row0) (int col0) dr dc then
                (case placeWord g word (int row0) (int col0) dr dc of
                   Inl e \<Rightarrow> Inl e
                 | Inr g' \<Rightarrow>
                     Inr (Some \<lparr>p_word = word, p_row = int row0, p_col = int col0,
                                p_direction = name, p_dr = dr, p_dc = dc,
                                p_cells = cellsOf word (int row0) (int col0) dr dc\<rparr>,
                          g', rnd2))
              else tryPlaceLoop g word dirs maxAttempts (Suc attempt) rnd2))
      else Inr (None, g, rnd))"
  by pat_completeness auto
termination
  by (relation "measure (\<lambda>(g, word, dirs, maxAttempts, attempt, rnd). maxAttempts - attempt)")
     auto

declare tryPlaceLoop.simps [simp del]

definition tryPlaceWord ::
  "grid \<Rightarrow> jsstring \<Rightarrow> rng \<Rightarrow> error + (placement option \<times> grid \<times> rng)" where
  "tryPlaceWord g word rnd =
     (let (dirs, rnd') = shuffle (zip DIRECTIONS DIRECTION_NAMES) rnd
      in tryPlaceLoop g word dirs 200 0 rnd')"

text \<open>
  \<open>Math.floor(Math.sqrt(2) * gridSize)\<close>, in exact real arithmetic. The double nearest to
  the square root of 2 exceeds it by less than 1e-16, which changes the floor of no product
  with a grid size that fits in memory.
\<close>

definition maxLength :: "nat \<Rightarrow> nat" where
  "maxLength gridSize = nat \<lfloor>sqrt 2 * real gridSize\<rfloor>"

text \<open>\<open>[...words].sort((a, b) => b.length - a.length)\<close>: a stable sort, longest first.\<close>

definition sortWords :: "jsstring list \<Rightarrow> jsstring list" where
  "sortWords words = sort_key (\<lambda>w. - int (length w)) words"

text \<open>The loop over the sorted words; \<open>placements\<close> and \<open>skipped\<close> grow by \<open>push\<close>.\<close>

fun wordLoop ::
  "(jsstring \<Rightarrow> jsstring) \<Rightarrow> nat \<Rightarrow> jsstring list \<Rightarrow> grid \<Rightarrow> placement list \<Rightarrow> jsstring list
     \<Rightarrow> rng \<Rightarrow> error + (grid \<times> placement list \<times> jsstring list \<times> rng)" where
  "wordLoop lc gridSize [] g placements skipped rnd = Inr (g, placements, skipped, rnd)"
| "wordLoop lc gridSize (word # rest) g placements skipped rnd =
     (let lower = lc word in
      if length lower > maxLength gridSize then
        wordLoop lc gridSize rest g placements (skipped @ [word]) rnd
      else (case tryPlaceWord g lower rnd of
              Inl e \<Rightarrow> Inl e
            | Inr (Some p, g', rnd') \<Rightarrow>
                wordLoop lc gridSize rest g' (placements @ [p]) skipped rnd'
            | Inr (None, g', rnd') \<Rightarrow>
                wordLoop lc gridSize rest g' placements (skipped @ [word]) rnd'))"

function fillRow :: "grid \<Rightarrow> string \<Rightarrow> nat \<Rightarrow> nat \<Rightarrow> nat \<Rightarrow> rng \<Rightarrow> error + (grid \<times> rng)" where
  "fillRow g lang gridSize r c rnd =
     (if c < gridSize then
        (case gridAt g (int r) (int c) of
           Inl e \<Rightarrow> Inl e
         | Inr v \<Rightarrow>
             if v = Null then
               (let (ch, rnd') = randomChar lang rnd in
                case gridSet g (int r) (int c) ch of
                  Inl e \<Rightarrow> Inl e
                | Inr g' \<Rightarrow> fillRow g' lang gridSize r (Suc c) rnd')
             else fillRow g lang gridSize r (Suc c) rnd)
      else Inr (g, rnd))"
  by pat_completeness auto
termination
  by (relation "measure (\<lambda>(g, lang, gridSize, r, c, rnd). gridSize - c)") auto

declare fillRow.simps [simp del]

function fillRows :: "grid \<Rightarrow> string \<Rightarrow> nat \<Rightarrow> nat \<Rightarrow> rng \<Rightarrow> error + (grid \<times> rng)" where
  "fillRows g lang gridSize r rnd =
     (if r < gridSize then
        (case fillRow g lang gridSize r 0 rnd of
           Inl e \<Rightarrow> Inl e
         | Inr (g', rnd') \<Rightarrow> fillRows g' lang gridSize (Suc r) rnd')
      else Inr (g, rnd))"
  by pat_completeness auto
termination
  by (relation "measure (\<lambda>(g, lang, gridSize, r, rnd). gridSize - r)") auto

declare fillRows.simps [simp del]

record genResult =
  g_grid :: grid
  placements :: "placement list"
  skipped :: "jsstring list"

definition generateGrid ::
  "(jsstring \<Rightarrow> jsstring) \<Rightarrow> jsstring list \<Rightarrow> nat \<Rightarrow> string \<Rightarrow> rng \<Rightarrow> error + genResult" where
  "generateGrid lc words gridSize lang rnd =
     (let g0 = createEmptyGrid gridSize;
          sorted = sortWords words
      in case wordLoop lc gridSize sorted g0 [] [] rnd of
           Inl e \<Rightarrow> Inl e
         | Inr (g1, ps, sk, rnd1) \<Rightarrow>
             (case fillRows g1 lang gridSize 0 rnd1 of
                Inl e \<Rightarrow> Inl e
              | Inr (g2, rnd2) \<Rightarrow> Inr \<lparr>g_grid = g2, placements = ps, skipped = sk\<rparr>))"

subsection \<open>The store of arrays\<close>

text \<open>
  JavaScript arrays are objects with identity, and some array methods write to the array
  they are called on. For the claims about what the two functions leave untouched, arrays
  live in a store: an address is an index into it and a new array takes the next address.
  \<open>filter\<close>, \<open>map\<close>, \<open>split\<close>, the spread \<open>[...a]\<close> and an array literal each make a new
  array; \<open>reverse\<close> and \<open>sort\<close> write to the array they are called on. Strings and the
  fields of a cell are never written by the code and stay values.
\<close>

type_synonym addr = nat

datatype jsarray = Cells "cell list" | Strings "jsstring list" | Vals "jsval list" | Rows "addr list"

type_synonym store = "jsarray list"

definition alloc :: "store \<Rightarrow> jsarray \<Rightarrow> addr \<times> store" where
  "alloc h a = (length h, h @ [a])"

definition fetch :: "store \<Rightarrow> addr \<Rightarrow> jsarray option" where
  "fetch h a = (if a < length h then Some (h ! a) else None)"

definition put :: "store \<Rightarrow> addr \<Rightarrow> jsarray \<Rightarrow> store" where
  "put h a v = h[a := v]"

text \<open>The grid behind an address: an array of row addresses, each row an array of values.\<close>

definition rowOf :: "store \<Rightarrow> addr \<Rightarrow> jsval list option" where
  "rowOf h a = (case fetch h a of Some (Vals vs) \<Rightarrow> Some vs | _ \<Rightarrow> None)"

definition gridOf :: "store \<Rightarrow> addr \<Rightarrow> grid option" where
  "gridOf h ga =
     (case fetch h ga of
        Some (Rows rs) \<Rightarrow>
          if list_all (\<lambda>a. rowOf h a \<noteq> None) rs then Some (map (\<lambda>a. the (rowOf h a)) rs)
          else None
      | _ \<Rightarrow> None)"

definition cellsAt :: "store \<Rightarrow> addr \<Rightarrow> cell list" where
  "cellsAt h a = (case fetch h a of Some (Cells cs) \<Rightarrow> cs | _ \<Rightarrow> [])"

text \<open>A result object; its \<open>cells\<close> field holds the address of an array of cells.\<close>

record selectionResultS =
  s_valid :: bool
  s_found :: bool
  s_word :: "jsstring option"
  s_direction :: "string option"
  s_startCell :: "cell option"
  s_cells :: addr

definition deref :: "store \<Rightarrow> selectionResultS \<Rightarrow> selectionResult" where
  "deref h r =
     \<lparr>valid = s_valid r, found = s_found r, sr_word = s_word r, sr_direction = s_direction r,
      startCell = s_startCell r, sr_cells = cellsAt h (s_cells r)\<rparr>"

text \<open>\<open>normalizeSelection\<close> on the store: \<open>cells.filter(...)\<close> makes the array \<open>deduped\<close>.\<close>

definition normalizeSelectionS :: "store \<Rightarrow> addr \<Rightarrow> error + (addr option \<times> store)" where
  "normalizeSelectionS h ca =
     (case fetch h ca of
        Some (Cells cells) \<Rightarrow>
          if cells = [] then Inr (None, h)
          else let (da, h1) = alloc h (Cells (dedup cells));
                   deduped = cellsAt h1 da
               in if length deduped = 0 then Inr (None, h1)
                  else if length deduped = 1 then Inr (Some da, h1)
                  else if getLineDirection deduped \<noteq> None then Inr (Some da, h1)
                  else Inr (None, h1)
      | _ \<Rightarrow> Inl TypeError)"

text \<open>The end of \<open>checkSelection\<close>, from \<open>if (!matchedWord)\<close> on.\<close>

definition finishS ::
  "jsstring option \<Rightarrow> addr \<Rightarrow> addr \<Rightarrow> store \<Rightarrow> error + (selectionResultS \<times> store)" where
  "finishS matchedWord matchedCells normalized h =
     (case matchedWord of
        None \<Rightarrow> Inr (\<lparr>s_valid = True, s_found = False, s_word = None, s_direction = None,
                        s_startCell = None, s_cells = normalized\<rparr>, h)
      | Some w \<Rightarrow>
          if w = [] then
            Inr (\<lparr>s_valid = True, s_found = False, s_word = None, s_direction = None,
                  s_startCell = None, s_cells = normalized\<rparr>, h)
          else
            Inr (\<lparr>s_valid = True, s_found = True, s_word = Some w,
                  s_direction =
                    (case getLineDirection (cellsAt h matchedCells) of
                       None \<Rightarrow> None | Some d \<Rightarrow> dirName d),
                  s_startCell = firstCell (cellsAt h matchedCells),
                  s_cells = matchedCells\<rparr>, h))"

text \<open>
  \<open>checkSelection\<close> on the store, statement by statement: the array literal of \<open>EMPTY\<close>, the
  array of \<open>normalized.map(...)\<close>, the array of \<open>selected.split('')\<close> reversed in place, the
  array of \<open>targetWords.map(...)\<close>, and on a reversed match the copy \<open>[...normalized]\<close>
  reversed in place.
\<close>

definition checkSelectionS ::
  "(jsstring \<Rightarrow> jsstring) \<Rightarrow> store \<Rightarrow> addr \<Rightarrow> addr \<Rightarrow> addr
     \<Rightarrow> error + (selectionResultS \<times> store)" where
  "checkSelectionS lc h ga ca ta =
     (let (ea, h0) = alloc h (Cells []);
          EMPTY_S = \<lparr>s_valid = False, s_found = False, s_word = None, s_direction = None,
                     s_startCell = None, s_cells = ea\<rparr>
      in case normalizeSelectionS h0 ca of
           Inl e \<Rightarrow> Inl e
         | Inr (None, h1) \<Rightarrow> Inr (EMPTY_S, h1)
         | Inr (Some na, h1) \<Rightarrow>
             (case (gridOf h1 ga, fetch h1 ta) of
                (Some g, Some (Strings targetWords)) \<Rightarrow>
                  let normalized = cellsAt h1 na in
                  if list_ex (outOfBounds (length g)) normalized then Inr (EMPTY_S, h1)
                  else (case readCells g normalized of
                     Inl e \<Rightarrow> Inl e
                   | Inr vals \<Rightarrow>
                       let (ma, h2) = alloc h1 (Vals vals);
                           selected = concat (map joinVal vals);
                           (sa, h3) = alloc h2 (Strings (map (\<lambda>c. [c]) selected));
                           h4 = put h3 sa (Strings (rev (map (\<lambda>c. [c]) selected)));
                           reversed = concat (rev (map (\<lambda>c. [c]) selected));
                           (la, h5) = alloc h4 (Strings (map lc targetWords));
                           targetSet = set (map lc targetWords)
                       in if lc selected \<in> targetSet then
                            finishS (Some (lc selected)) na na h5
                          else if lc reversed \<in> targetSet then
                            (let (ra, h6) = alloc h5 (Cells normalized);
                                 h7 = put h6 ra (Cells (rev normalized))
                             in finishS (Some (lc reversed)) ra na h7)
                          else finishS None na na h5)
              | _ \<Rightarrow> Inl TypeError))"

text \<open>
  \<open>generateGrid\<close> on the store: \<open>[...words]\<close> makes a copy and \<open>sort\<close> writes to the copy; the
  loops run over the sorted copy. The grid and the two result lists are made by the call.
\<close>

definition generateGridS ::
  "(jsstring \<Rightarrow> jsstring) \<Rightarrow> store \<Rightarrow> addr \<Rightarrow> nat \<Rightarrow> string \<Rightarrow> rng
     \<Rightarrow> error + (genResult \<times> store)" where
  "generateGridS lc h wa gridSize lang rnd =
     (case fetch h wa of
        Some (Strings words) \<Rightarrow>
          let g0 = createEmptyGrid gridSize;
              (sa, h1) = alloc h (Strings words);
              h2 = put h1 sa (Strings (sortWords words))
          in (case fetch h2 sa of
                Some (Strings sortedWords) \<Rightarrow>
                  (case wordLoop lc gridSize sortedWords g0 [] [] rnd of
                     Inl e \<Rightarrow> Inl e
                   | Inr (g1, ps, sk, rnd1) \<Rightarrow>
                       (case fillRows g1 lang gridSize 0 rnd1 of
                          Inl e \<Rightarrow> Inl e
                        | Inr (g2, rnd2) \<Rightarrow>
                            Inr (\<lparr>g_grid = g2, placements = ps, skipped = sk\<rparr>, h2)))
              | _ \<Rightarrow> Inl TypeError)
      | _ \<Rightarrow> Inl TypeError)"

text \<open>The scenario grid, the reverse drag over "cat" and the target list, in a store.\<close>

definition catStore :: store where
  "catStore =
     [Rows [1, 2, 3], Vals [Ch 99, Ch 97, Ch 116], Vals [Ch 120, Ch 120, Ch 120],
      Vals [Ch 120, Ch 120, Ch 120],
      Cells [\<lparr>row = 0, col = 2\<rparr>, \<lparr>row = 0, col = 1\<rparr>, \<lparr>row = 0, col = 0\<rparr>],
      Strings [[99, 97, 116]]]"

text \<open>An input word list in a store.\<close>

definition wordStore :: store where
  "wordStore = [Strings [[67, 97, 116], [65, 66, 67, 68, 69, 70, 71, 72, 73, 74]]]"

subsection \<open>Notions of the specification\<close>

text \<open>
  The per-step deltas of a cell sequence, and the specification's straight-line selection:
  a constant per-step delta that is one of the 8 canonical unit vectors.
\<close>

definition stepsOf :: "cell list \<Rightarrow> (int \<times> int) list" where
  "stepsOf cs = map (\<lambda>(a, b). (row b - row a, col b - col a)) (zip cs (tl cs))"

definition straightLine :: "cell list \<Rightarrow> bool" where
  "straightLine cs = (\<exists>d \<in> set DIRECTIONS. \<forall>s \<in> set (stepsOf cs). s = d)"

text \<open>The name of the direction from the first cell to the second; none for a single cell.\<close>

definition directionOf :: "cell list \<Rightarrow> string option" where
  "directionOf cs =
     (case cs of a # b # rest \<Rightarrow> V_DIRECTION_NAMES (row b - row a, col b - col a) | _ \<Rightarrow> None)"

text \<open>The grid of the specification's scenarios: "cat" in the first row, "x" elsewhere.\<close>

definition catGrid :: grid where
  "catGrid = [[Ch 99, Ch 97, Ch 116], [Ch 120, Ch 120, Ch 120], [Ch 120, Ch 120, Ch 120]]"

subsection \<open>Invariants of the generator\<close>

text \<open>A grid is square of side \<open>n\<close>: \<open>n\<close> rows of \<open>n\<close> cells.\<close>

definition square :: "nat \<Rightarrow> grid \<Rightarrow> bool" where
  "square n g = (length g = n \<and> (\<forall>line \<in> set g. length line = n))"

text \<open>The cell at offset \<open>i\<close> of a run: \<open>(row + i * dr, col + i * dc)\<close>.\<close>

definition pos :: "int \<Rightarrow> int \<Rightarrow> int \<Rightarrow> int \<Rightarrow> nat \<Rightarrow> int \<times> int" where
  "pos row0 col0 dr dc i = (row0 + int i * dr, col0 + int i * dc)"

text \<open>A coordinate pair inside the \<open>n\<close> by \<open>n\<close> grid.\<close>

definition inGrid :: "nat \<Rightarrow> int \<times> int \<Rightarrow> bool" where
  "inGrid n p = (0 \<le> fst p \<and> fst p < int n \<and> 0 \<le> snd p \<and> snd p < int n)"

text \<open>The content of the grid at a coordinate pair inside it.\<close>

definition cellAt :: "grid \<Rightarrow> int \<times> int \<Rightarrow> jsval" where
  "cellAt g p = g ! nat (fst p) ! nat (snd p)"

text \<open>
  A placement is in the grid: its direction is one of the table with its name, its cells are
  those of its run, and the grid holds its word along the run.
\<close>

definition placedIn :: "nat \<Rightarrow> grid \<Rightarrow> placement \<Rightarrow> bool" where
  "placedIn n g p =
     (((p_dr p, p_dc p), p_direction p) \<in> set (zip DIRECTIONS DIRECTION_NAMES) \<and>
      p_cells p = cellsOf (p_word p) (p_row p) (p_col p) (p_dr p) (p_dc p) \<and>
      (\<forall>j < length (p_word p).
          inGrid n (pos (p_row p) (p_col p) (p_dr p) (p_dc p) j) \<and>
          cellAt g (pos (p_row p) (p_col p) (p_dr p) (p_dc p) j) = Ch (p_word p ! j)))"

text \<open>A later grid keeps every cell that is already set.\<close>

definition extends :: "nat \<Rightarrow> grid \<Rightarrow> grid \<Rightarrow> bool" where
  "extends n g g' = (\<forall>q. inGrid n q \<longrightarrow> cellAt g q \<noteq> Null \<longrightarrow> cellAt g' q = cellAt g q)"

text \<open>Every cell that is set holds a letter of a placement that runs through it.\<close>

definition covered :: "nat \<Rightarrow> grid \<Rightarrow> placement list \<Rightarrow> bool" where
  "covered n g ps =
     (\<forall>q. inGrid n q \<longrightarrow> cellAt g q = Null \<or>
        (\<exists>p \<in> set ps. \<exists>j < length (p_word p).
            q = pos (p_row p) (p_col p) (p_dr p) (p_dc p) j \<and> cellAt g q = Ch (p_word p ! j)))"

text \<open>What the filler can write for a language code.\<close>

definition fillerVals :: "string \<Rightarrow> jsval set" where
  "fillerVals lang =
     (case alphabetOf lang of Letters a \<Rightarrow> Ch ` set a | Inherited \<Rightarrow> {Undefined})"

section \<open>Properties\<close>

lemma str_cat: "str ''cat'' = [99, 97, 116]"
  by (simp add: str_def)

lemma str_CAT: "str ''CAT'' = [67, 65, 84]"
  by (simp add: str_def)

lemma str_dog: "str ''dog'' = [100, 111, 103]"
  by (simp add: str_def)

text \<open>
  C7. \<open>isGameWon(foundWords, targetWords)\<close> is true exactly when \<open>targetWords\<close> is not
  empty and the lowercase form of every target word is the lowercase form of some found
  word. With the runtime's lowercasing of ASCII: \<open>isGameWon([], [])\<close> is false,
  \<open>isGameWon(["cat"], ["cat"])\<close> is true, \<open>isGameWon(["cat"], ["CAT", "dog"])\<close> is false.
\<close>

theorem isGameWon_iff:
  "(isGameWon lc foundWords targetWords \<longleftrightarrow>
      targetWords \<noteq> [] \<and> (\<forall>w \<in> set targetWords. \<exists>f \<in> set foundWords. lc w = lc f))
   \<and> \<not> isGameWon asciiLower [] []
   \<and> isGameWon asciiLower [str ''cat''] [str ''cat'']
   \<and> \<not> isGameWon asciiLower [str ''cat''] [str ''CAT'', str ''dog'']"
proof -
  have gen: "isGameWon lc foundWords targetWords \<longleftrightarrow>
      targetWords \<noteq> [] \<and> (\<forall>w \<in> set targetWords. \<exists>f \<in> set foundWords. lc w = lc f)"
    by (auto simp: isGameWon_def Let_def list_all_iff)
  have e1: "\<not> isGameWon asciiLower [] []"
    by (simp add: isGameWon_def)
  have e2: "isGameWon asciiLower [str ''cat''] [str ''cat'']"
    by (simp add: isGameWon_def)
  have e3: "\<not> isGameWon asciiLower [str ''cat''] [str ''CAT'', str ''dog'']"
    by (simp add: isGameWon_def str_cat str_CAT str_dog asciiLower_def asciiLowerChar_def)
  from gen e1 e2 e3 show ?thesis by blast
qed

theorem isGameWon_iff_witness:
  "isGameWon asciiLower [str ''dog'', str ''CAT''] [str ''cat'']
   \<and> \<not> isGameWon asciiLower [str ''dog''] [str ''cat'']"
  using isGameWon_iff [of asciiLower "[str ''dog'', str ''CAT'']" "[str ''cat'']"]
        isGameWon_iff [of asciiLower "[str ''dog'']" "[str ''cat'']"]
  by (simp add: str_cat str_CAT str_dog asciiLower_def asciiLowerChar_def)

subsection \<open>The validator\<close>

lemma stepsOf_simps [simp]:
  "stepsOf [] = []" "stepsOf [a] = []"
  "stepsOf (a # b # cs) = (row b - row a, col b - col a) # stepsOf (b # cs)"
  by (simp_all add: stepsOf_def)

lemma sameDelta_steps: "sameDelta dr dc cs \<longleftrightarrow> (\<forall>s \<in> set (stepsOf cs). s = (dr, dc))"
  by (induction dr dc cs rule: sameDelta.induct) auto

lemma V_DIRECTION_NAMES_None: "V_DIRECTION_NAMES d = None \<longleftrightarrow> d \<notin> set DIRECTIONS"
  by (auto simp: V_DIRECTION_NAMES_def DIRECTIONS_def)

lemma getLineDirection_long:
  "getLineDirection (a # b # cs) =
     (if straightLine (a # b # cs)
      then Some \<lparr>ld_dr = row b - row a, ld_dc = col b - col a,
                 dirName = V_DIRECTION_NAMES (row b - row a, col b - col a)\<rparr>
      else None)"
proof -
  let ?d = "(row b - row a, col b - col a)"
  have "V_DIRECTION_NAMES ?d = None \<longleftrightarrow> ?d \<notin> set DIRECTIONS"
    by (rule V_DIRECTION_NAMES_None)
  then show ?thesis
    by (cases "V_DIRECTION_NAMES ?d")
       (auto simp: getLineDirection_def Let_def sameDelta_steps straightLine_def)
qed

lemma cell_eqI: "row (c::cell) = row p \<Longrightarrow> col c = col p \<Longrightarrow> c = p"
  by (cases c, cases p) simp

lemma set_dedupFrom: "insert p (set (dedupFrom p cs)) = insert p (set cs)"
  by (induction cs arbitrary: p) (auto dest: cell_eqI)

lemma set_dedup: "set (dedup cs) = set cs"
  using set_dedupFrom by (cases cs) (auto simp: dedup_def)

lemma dedup_Nil: "dedup cs = [] \<longleftrightarrow> cs = []"
  by (cases cs) (auto simp: dedup_def)

lemma straightLine_short: "length cs < 2 \<Longrightarrow> straightLine cs"
  by (cases cs; cases "tl cs") (auto simp: straightLine_def DIRECTIONS_def)

lemma normalizeSelection_eq:
  "normalizeSelection cells =
     (if cells = [] \<or> \<not> straightLine (dedup cells) then None else Some (dedup cells))"
proof (cases "cells = []")
  case True
  then show ?thesis by (simp add: normalizeSelection_def)
next
  case False
  then obtain a as where d: "dedup cells = a # as"
    by (cases cells) (simp_all add: dedup_def)
  show ?thesis
  proof (cases as)
    case Nil
    have "straightLine [a]" by (rule straightLine_short) simp
    with False d Nil show ?thesis
      by (simp add: normalizeSelection_def)
  next
    case (Cons b bs)
    with False d show ?thesis
      by (simp add: normalizeSelection_def getLineDirection_long)
  qed
qed

lemma readCells_ok:
  "\<not> list_ex (outOfBounds (length g)) cs \<Longrightarrow> \<exists>vals. readCells g cs = Inr vals \<and> length vals = length cs"
  by (induction cs) (auto simp: gridAt_def outOfBounds_def Let_def)

lemma dedupFrom_id:
  "\<forall>s \<in> set (stepsOf (p # cs)). s \<noteq> (0, 0) \<Longrightarrow> dedupFrom p cs = cs"
  by (induction cs arbitrary: p) auto

lemma straightLine_dedup: "straightLine cs \<Longrightarrow> dedup cs = cs"
proof (cases cs)
  case Nil then show ?thesis by (simp add: dedup_def)
next
  case (Cons p ps)
  assume "straightLine cs"
  then have "\<forall>s \<in> set (stepsOf (p # ps)). s \<noteq> (0, 0)"
    using Cons by (auto simp: straightLine_def DIRECTIONS_def)
  then show ?thesis using Cons by (simp add: dedup_def dedupFrom_id)
qed

lemma list_ex_dedup: "list_ex P (dedup cs) = list_ex P cs"
  by (simp add: list_ex_iff set_dedup)

lemma getLineDirection_name:
  "straightLine cs \<Longrightarrow>
     (case getLineDirection cs of None \<Rightarrow> None | Some d \<Rightarrow> dirName d) = directionOf cs"
proof (cases cs)
  case Nil
  then show ?thesis by (simp add: getLineDirection_def directionOf_def)
next
  case (Cons a as)
  assume sl: "straightLine cs"
  show ?thesis
  proof (cases as)
    case Nil
    with Cons show ?thesis by (simp add: getLineDirection_def directionOf_def)
  next
    case (Cons b bs)
    with \<open>cs = a # as\<close> sl show ?thesis
      by (simp add: getLineDirection_long directionOf_def)
  qed
qed

lemma stepsOf_snoc:
  "stepsOf (cs @ [x]) =
     (if cs = [] then [] else stepsOf cs @ [(row x - row (last cs), col x - col (last cs))])"
proof (induction cs rule: induct_list012)
  case 1 show ?case by simp
next
  case (2 a) show ?case by simp
next
  case (3 a b cs)
  then show ?case by simp
qed

lemma stepsOf_rev: "set (stepsOf (rev cs)) = (\<lambda>(a, b). (- a, - b)) ` set (stepsOf cs)"
proof (induction cs rule: induct_list012)
  case 1 show ?case by simp
next
  case (2 a) show ?case by simp
next
  case (3 a b cs)
  have "stepsOf (rev (a # b # cs)) = stepsOf ((rev (b # cs)) @ [a])" by simp
  also have "\<dots> = stepsOf (rev (b # cs)) @ [(row a - row b, col a - col b)]"
    by (subst stepsOf_snoc) simp
  finally show ?case using 3 by auto
qed

lemma straightLine_rev: "straightLine cs \<Longrightarrow> straightLine (rev cs)"
proof -
  assume "straightLine cs"
  then obtain d where d: "d \<in> set DIRECTIONS" "\<forall>s \<in> set (stepsOf cs). s = d"
    by (auto simp: straightLine_def)
  obtain a b where ab: "d = (a, b)" by (cases d)
  have "(- a, - b) \<in> set DIRECTIONS" using d(1) ab by (auto simp: DIRECTIONS_def)
  moreover have "\<forall>s \<in> set (stepsOf (rev cs)). s = (- a, - b)"
    using d(2) ab by (auto simp: stepsOf_rev)
  ultimately show ?thesis unfolding straightLine_def by blast
qed

lemma checkSelection_valid:
  assumes "cells \<noteq> []" "straightLine cells" "\<not> list_ex (outOfBounds (length g)) cells"
    and "readCells g cells = Inr vals"
  shows "checkSelection lc g cells tw =
     (let selected = concat (map joinVal vals) in
      if lc selected \<in> set (map lc tw) \<and> lc selected \<noteq> [] then
        Inr \<lparr>valid = True, found = True, sr_word = Some (lc selected),
             sr_direction = directionOf cells, startCell = firstCell cells, sr_cells = cells\<rparr>
      else if lc selected \<notin> set (map lc tw) \<and> lc (rev selected) \<in> set (map lc tw)
              \<and> lc (rev selected) \<noteq> [] then
        Inr \<lparr>valid = True, found = True, sr_word = Some (lc (rev selected)),
             sr_direction = directionOf (rev cells), startCell = firstCell (rev cells),
             sr_cells = rev cells\<rparr>
      else
        Inr \<lparr>valid = True, found = False, sr_word = None, sr_direction = None,
             startCell = None, sr_cells = cells\<rparr>)"
proof -
  have n: "normalizeSelection cells = Some cells"
    using assms(1,2) by (simp add: normalizeSelection_eq straightLine_dedup)
  have d1: "(case getLineDirection cells of None \<Rightarrow> None | Some d \<Rightarrow> dirName d) = directionOf cells"
    using assms(2) by (rule getLineDirection_name)
  have d2: "(case getLineDirection (rev cells) of None \<Rightarrow> None | Some d \<Rightarrow> dirName d)
              = directionOf (rev cells)"
    using assms(2) by (intro getLineDirection_name straightLine_rev)
  show ?thesis
    unfolding checkSelection_def n using assms(3,4) d1 d2
    by (simp add: Let_def)
qed

lemma readCells_length: "readCells g cs = Inr vals \<Longrightarrow> length vals = length cs"
  by (induction cs arbitrary: vals) (auto split: sum.splits)

lemma concat_joinVal_ne:
  "vals \<noteq> [] \<Longrightarrow> \<forall>v \<in> set vals. \<exists>ch. v = Ch ch \<Longrightarrow> concat (map joinVal vals) \<noteq> []"
  by (cases vals) auto

lemmas eval_validator =
  checkSelection_def normalizeSelection_def dedup_def getLineDirection_def
  V_DIRECTION_NAMES_def gridAt_def outOfBounds_def firstCell_def catGrid_def
  asciiLower_def asciiLowerChar_def str_def EMPTY_def Let_def

lemma checkSelection_reverse_drag:
  "checkSelection asciiLower catGrid
       [\<lparr>row = 0, col = 2\<rparr>, \<lparr>row = 0, col = 1\<rparr>, \<lparr>row = 0, col = 0\<rparr>] [str ''cat'']
     = Inr \<lparr>valid = True, found = True, sr_word = Some (str ''cat''),
            sr_direction = Some ''right'', startCell = Some \<lparr>row = 0, col = 0\<rparr>,
            sr_cells = [\<lparr>row = 0, col = 0\<rparr>, \<lparr>row = 0, col = 1\<rparr>, \<lparr>row = 0, col = 2\<rparr>]\<rparr>"
  by (simp add: eval_validator)

text \<open>
  C4. On a valid straight-line selection inside a grid of characters: when the string read
  forward matches a target word (both lowercased) the result is found, with that word and the
  cells in input order; otherwise, when the reversed string matches, the result is found with
  the cells reversed, the start cell the last selected cell and the direction that of the
  reversed cells; when neither matches the result is valid, not found, with no word.
  Dragging (0,2), (0,1), (0,0) over "cat" reports the direction "right". The lowercasing is
  assumed to give a non-empty string for a non-empty one, as the runtime's does.
\<close>

theorem checkSelection_match:
  assumes "cells \<noteq> []" and "straightLine cells"
    and "\<not> list_ex (outOfBounds (length g)) cells"
    and "readCells g cells = Inr vals" and "\<forall>v \<in> set vals. \<exists>ch. v = Ch ch"
    and "\<forall>s. s \<noteq> [] \<longrightarrow> lc s \<noteq> []"
  shows "(let selected = concat (map joinVal vals) in
      checkSelection lc g cells tw = Inr
       (if lc selected \<in> lc ` set tw then
          \<lparr>valid = True, found = True, sr_word = Some (lc selected),
           sr_direction = directionOf cells, startCell = Some (hd cells), sr_cells = cells\<rparr>
        else if lc (rev selected) \<in> lc ` set tw then
          \<lparr>valid = True, found = True, sr_word = Some (lc (rev selected)),
           sr_direction = directionOf (rev cells), startCell = Some (last cells),
           sr_cells = rev cells\<rparr>
        else
          \<lparr>valid = True, found = False, sr_word = None, sr_direction = None,
           startCell = None, sr_cells = cells\<rparr>))
    \<and> checkSelection asciiLower catGrid
         [\<lparr>row = 0, col = 2\<rparr>, \<lparr>row = 0, col = 1\<rparr>, \<lparr>row = 0, col = 0\<rparr>] [str ''cat'']
       = Inr \<lparr>valid = True, found = True, sr_word = Some (str ''cat''),
              sr_direction = Some ''right'', startCell = Some \<lparr>row = 0, col = 0\<rparr>,
              sr_cells = [\<lparr>row = 0, col = 0\<rparr>, \<lparr>row = 0, col = 1\<rparr>, \<lparr>row = 0, col = 2\<rparr>]\<rparr>"
proof -
  let ?sel = "concat (map joinVal vals)"
  have "length vals = length cells" using assms(4) by (rule readCells_length)
  then have "vals \<noteq> []" using assms(1) by auto
  then have ne: "?sel \<noteq> []" using assms(5) by (rule concat_joinVal_ne)
  have l1: "lc ?sel \<noteq> []" using assms(6) ne by blast
  have "rev ?sel \<noteq> []" using ne by simp
  then have l2: "lc (rev ?sel) \<noteq> []" using assms(6) by blast
  obtain a as where c: "cells = a # as" using assms(1) by (cases cells) auto
  have f1: "firstCell cells = Some (hd cells)"
    by (simp add: c firstCell_def)
  have "rev cells \<noteq> []" using assms(1) by simp
  then obtain b bs where rc: "rev cells = b # bs" by (cases "rev cells") auto
  have "hd (rev cells) = last cells" using assms(1) by (simp add: hd_rev)
  then have f2: "firstCell (rev cells) = Some (last cells)"
    by (simp add: rc firstCell_def)
  have img: "set (map lc tw) = lc ` set tw" by simp
  note cv = checkSelection_valid [OF assms(1-4), of lc tw, unfolded Let_def img f1 f2]
  have main: "checkSelection lc g cells tw = Inr
       (if lc ?sel \<in> lc ` set tw then
          \<lparr>valid = True, found = True, sr_word = Some (lc ?sel),
           sr_direction = directionOf cells, startCell = Some (hd cells), sr_cells = cells\<rparr>
        else if lc (rev ?sel) \<in> lc ` set tw then
          \<lparr>valid = True, found = True, sr_word = Some (lc (rev ?sel)),
           sr_direction = directionOf (rev cells), startCell = Some (last cells),
           sr_cells = rev cells\<rparr>
        else
          \<lparr>valid = True, found = False, sr_word = None, sr_direction = None,
           startCell = None, sr_cells = cells\<rparr>)"
  proof (cases "lc ?sel \<in> lc ` set tw")
    case True
    with l1 show ?thesis by (simp only: cv simp_thms if_True if_False)
  next
    case False
    show ?thesis
    proof (cases "lc (rev ?sel) \<in> lc ` set tw")
      case True
      with False l2 show ?thesis by (simp only: cv simp_thms if_True if_False)
    next
      case nr: False
      with False show ?thesis by (simp only: cv simp_thms if_True if_False)
    qed
  qed
  show ?thesis
    unfolding Let_def by (rule conjI [OF main checkSelection_reverse_drag])
qed

text \<open>The forward drag over "cat" in the scenario grid.\<close>

theorem checkSelection_match_witness:
  "checkSelection asciiLower catGrid
       [\<lparr>row = 0, col = 0\<rparr>, \<lparr>row = 0, col = 1\<rparr>, \<lparr>row = 0, col = 2\<rparr>] [str ''cat'']
     = Inr \<lparr>valid = True, found = True, sr_word = Some (str ''cat''),
            sr_direction = Some ''right'', startCell = Some \<lparr>row = 0, col = 0\<rparr>,
            sr_cells = [\<lparr>row = 0, col = 0\<rparr>, \<lparr>row = 0, col = 1\<rparr>, \<lparr>row = 0, col = 2\<rparr>]\<rparr>"
  using checkSelection_match [of "[\<lparr>row = 0, col = 0\<rparr>, \<lparr>row = 0, col = 1\<rparr>, \<lparr>row = 0, col = 2\<rparr>]"
      catGrid "[Ch 99, Ch 97, Ch 116]" asciiLower "[str ''cat'']"]
  by (simp add: straightLine_def stepsOf_def DIRECTIONS_def directionOf_def eval_validator)

lemma readCells_readIndices:
  "readCells g cs = Inr vals \<Longrightarrow>
     map (\<lambda>(i, j). gridAt g i j) (readIndices g cs) = map Inr vals"
  by (induction cs arbitrary: vals) (auto split: sum.splits)

lemma readIndices_ok:
  "\<not> list_ex (outOfBounds (length g)) cs \<Longrightarrow>
     readIndices g cs = map (\<lambda>c. (row c, col c)) cs"
  by (induction cs) (auto simp: gridAt_def outOfBounds_def Let_def)

text \<open>
  C5, as amended. \<open>checkSelection\<close> always returns a result and never raises. When the cell
  list is empty, or the list left after removing consecutive repeated cells is not a
  straight line, or some cell lies outside \<open>[0, grid.length)\<close> on an axis, the result is the
  invalid result \<open>EMPTY\<close> and the grid is not read at all. Otherwise the result is valid and
  the grid is read at the cells left after removing repetitions. Every index with which
  the grid is read lies in \<open>[0, grid.length)\<close>, on both axes; when every row has
  \<open>grid.length\<close> cells, every read is of a cell of its row.
\<close>

theorem checkSelection_total:
  "\<exists>r. checkSelection lc g cells tw = Inr r \<and>
     (if cells = [] \<or> \<not> straightLine (dedup cells) \<or> list_ex (outOfBounds (length g)) cells
      then r = EMPTY \<and> gridReads g cells = []
      else valid r \<and> gridReads g cells = map (\<lambda>c. (row c, col c)) (dedup cells)) \<and>
     (\<forall>(i, j) \<in> set (gridReads g cells).
        0 \<le> i \<and> i < int (length g) \<and> 0 \<le> j \<and> j < int (length g)) \<and>
     ((\<forall>line \<in> set g. length line = length g) \<longrightarrow>
        (\<forall>(i, j) \<in> set (gridReads g cells). nat j < length (g ! nat i)))"
proof -
  let ?bad = "cells = [] \<or> \<not> straightLine (dedup cells)
                \<or> list_ex (outOfBounds (length g)) cells"
  have first: "\<exists>r. checkSelection lc g cells tw = Inr r \<and>
     (if ?bad then r = EMPTY \<and> gridReads g cells = []
      else valid r \<and> gridReads g cells = map (\<lambda>c. (row c, col c)) (dedup cells))"
  proof (cases "cells = [] \<or> \<not> straightLine (dedup cells)")
    case True
    then have "normalizeSelection cells = None" by (simp add: normalizeSelection_eq)
    then have e: "checkSelection lc g cells tw = Inr EMPTY" and gr: "gridReads g cells = []"
      by (simp_all add: checkSelection_def gridReads_def)
    have b: "?bad" using True by blast
    show ?thesis
      by (rule exI [of _ EMPTY], rule conjI [OF e], subst if_P [OF b], rule conjI [OF refl gr])
  next
    case False
    then have n: "normalizeSelection cells = Some (dedup cells)"
      by (simp add: normalizeSelection_eq)
    show ?thesis
    proof (cases "list_ex (outOfBounds (length g)) cells")
      case True
      then have e: "checkSelection lc g cells tw = Inr EMPTY" and gr: "gridReads g cells = []"
        using n by (simp_all add: checkSelection_def gridReads_def list_ex_dedup)
      have b: "?bad" using True by blast
      show ?thesis
        by (rule exI [of _ EMPTY], rule conjI [OF e], subst if_P [OF b], rule conjI [OF refl gr])
    next
      case nb: False
      then have nb': "\<not> list_ex (outOfBounds (length g)) (dedup cells)"
        by (simp add: list_ex_dedup)
      then obtain vals where v: "readCells g (dedup cells) = Inr vals"
        using readCells_ok by blast
      have "\<exists>r. checkSelection lc g cells tw = Inr r \<and> valid r"
        using nb' v by (auto simp: checkSelection_def n Let_def split: option.splits prod.splits)
      then obtain r where r: "checkSelection lc g cells tw = Inr r" "valid r" by blast
      have gr: "gridReads g cells = map (\<lambda>c. (row c, col c)) (dedup cells)"
        using nb' n by (simp add: gridReads_def readIndices_ok)
      have c: "\<not> ?bad" using False nb by simp
      show ?thesis
        by (rule exI [of _ r], rule conjI [OF r(1)], subst if_not_P [OF c], rule conjI [OF r(2) gr])
    qed
  qed
  have sub: "set (gridReads g cells) \<subseteq>
      {(i, j). 0 \<le> i \<and> i < int (length g) \<and> 0 \<le> j \<and> j < int (length g)}"
  proof (cases "normalizeSelection cells")
    case None
    then show ?thesis by (simp add: gridReads_def)
  next
    case (Some nz)
    show ?thesis
    proof (cases "list_ex (outOfBounds (length g)) nz")
      case True
      then show ?thesis using Some by (simp add: gridReads_def)
    next
      case False
      then have "gridReads g cells = map (\<lambda>c. (row c, col c)) nz"
        using Some by (simp add: gridReads_def readIndices_ok)
      then show ?thesis using False by (auto simp: list_ex_iff outOfBounds_def)
    qed
  qed
  then have second: "\<forall>(i, j) \<in> set (gridReads g cells).
        0 \<le> i \<and> i < int (length g) \<and> 0 \<le> j \<and> j < int (length g)"
    by auto
  have third: "(\<forall>line \<in> set g. length line = length g) \<longrightarrow>
        (\<forall>(i, j) \<in> set (gridReads g cells). nat j < length (g ! nat i))"
  proof (intro impI ballI)
    fix x assume sq: "\<forall>line \<in> set g. length line = length g"
      and x: "x \<in> set (gridReads g cells)"
    obtain i j where ij: "x = (i, j)" by (cases x)
    have b: "0 \<le> i" "i < int (length g)" "0 \<le> j" "j < int (length g)"
      using sub x ij by auto
    then have "nat i < length g" by auto
    then have "length (g ! nat i) = length g" using sq by simp
    then have "nat j < length (g ! nat i)" using b by auto
    then show "case x of (i, j) \<Rightarrow> nat j < length (g ! nat i)" using ij by simp
  qed
  from first second third show ?thesis by blast
qed

text \<open>
  An L-shaped selection and a selection that leaves the grid both give \<open>EMPTY\<close> and read
  nothing; the selection (0,0), (0,0), (0,1) reads the grid at (0,0) and (0,1).
\<close>

theorem checkSelection_total_witness:
  "checkSelection asciiLower catGrid
       [\<lparr>row = 0, col = 0\<rparr>, \<lparr>row = 0, col = 1\<rparr>, \<lparr>row = 1, col = 1\<rparr>] [str ''cat''] = Inr EMPTY
   \<and> gridReads catGrid [\<lparr>row = 0, col = 0\<rparr>, \<lparr>row = 0, col = 1\<rparr>, \<lparr>row = 1, col = 1\<rparr>] = []
   \<and> checkSelection asciiLower catGrid [\<lparr>row = 0, col = 2\<rparr>, \<lparr>row = 0, col = 3\<rparr>] [str ''cat'']
       = Inr EMPTY
   \<and> gridReads catGrid [\<lparr>row = 0, col = 2\<rparr>, \<lparr>row = 0, col = 3\<rparr>] = []
   \<and> gridReads catGrid [\<lparr>row = 0, col = 0\<rparr>, \<lparr>row = 0, col = 0\<rparr>, \<lparr>row = 0, col = 1\<rparr>]
       = [(0, 0), (0, 1)]"
  using checkSelection_total [of asciiLower catGrid
          "[\<lparr>row = 0, col = 0\<rparr>, \<lparr>row = 0, col = 1\<rparr>, \<lparr>row = 1, col = 1\<rparr>]" "[str ''cat'']"]
        checkSelection_total [of asciiLower catGrid
          "[\<lparr>row = 0, col = 2\<rparr>, \<lparr>row = 0, col = 3\<rparr>]" "[str ''cat'']"]
        checkSelection_total [of asciiLower catGrid
          "[\<lparr>row = 0, col = 0\<rparr>, \<lparr>row = 0, col = 0\<rparr>, \<lparr>row = 0, col = 1\<rparr>]" "[str ''cat'']"]
  by (simp add: eval_validator gridReads_def)

text \<open>
  C5 as stated fails: the selection (0,0), (0,0), (0,1) has the steps (0,0) and (0,1), so it
  has no constant per-step delta among the 8 unit vectors, and yet the result is valid: the
  repeated cell is removed first.
\<close>

theorem checkSelection_duplicate_counterexample:
  "\<not> straightLine [\<lparr>row = 0, col = 0\<rparr>, \<lparr>row = 0, col = 0\<rparr>, \<lparr>row = 0, col = 1\<rparr>]
   \<and> checkSelection asciiLower catGrid
        [\<lparr>row = 0, col = 0\<rparr>, \<lparr>row = 0, col = 0\<rparr>, \<lparr>row = 0, col = 1\<rparr>] [str ''cat'']
      = Inr \<lparr>valid = True, found = False, sr_word = None, sr_direction = None,
             startCell = None, sr_cells = [\<lparr>row = 0, col = 0\<rparr>, \<lparr>row = 0, col = 1\<rparr>]\<rparr>"
  by (simp add: straightLine_def stepsOf_def DIRECTIONS_def eval_validator)

subsection \<open>The generator\<close>

lemma square_createEmptyGrid: "square n (createEmptyGrid n)"
  by (simp add: square_def createEmptyGrid_def)

lemma inGrid_nat: "inGrid n p \<Longrightarrow> nat (fst p) < n \<and> nat (snd p) < n"
  by (auto simp: inGrid_def)

lemma cellAt_createEmptyGrid: "inGrid n p \<Longrightarrow> cellAt (createEmptyGrid n) p = Null"
  using inGrid_nat [of n p] by (simp add: cellAt_def createEmptyGrid_def)

lemma square_row: "square n g \<Longrightarrow> r < n \<Longrightarrow> length (g ! r) = n"
  by (auto simp: square_def)

lemma gridAt_in: "square n g \<Longrightarrow> inGrid n (r, c) \<Longrightarrow> gridAt g r c = Inr (cellAt g (r, c))"
  using inGrid_nat [of n "(r, c)"] square_row [of n g "nat r"]
  by (auto simp: gridAt_def cellAt_def inGrid_def Let_def square_def)

lemma gridSet_in:
  "square n g \<Longrightarrow> inGrid n (r, c) \<Longrightarrow>
     gridSet g r c v = Inr (g[nat r := (g ! nat r)[nat c := v]])"
  using inGrid_nat [of n "(r, c)"] square_row [of n g "nat r"]
  by (auto simp: gridSet_def inGrid_def Let_def square_def)

lemma square_update:
  assumes sq: "square n g"
  shows "square n (g[r := (g ! r)[c := v]])"
proof (cases "r < length g")
  case False
  then have "length g \<le> r" by arith
  then have "g[r := (g ! r)[c := v]] = g" by (rule list_update_beyond)
  then show ?thesis using sq by simp
next
  case True
  then have "length ((g ! r)[c := v]) = n" using sq by (simp add: square_def)
  moreover have "set (g[r := (g ! r)[c := v]]) \<subseteq> insert ((g ! r)[c := v]) (set g)"
    by (rule set_update_subset_insert)
  ultimately show ?thesis using sq unfolding square_def by auto
qed

lemma cellAt_update:
  assumes sq: "square n g" and p: "inGrid n p" and q: "inGrid n q"
  shows "cellAt (g[nat (fst p) := (g ! nat (fst p))[nat (snd p) := v]]) q
           = (if q = p then v else cellAt g q)"
proof -
  obtain r c where pe: "p = (r, c)" by (cases p)
  obtain r' c' where qe: "q = (r', c')" by (cases q)
  have b: "0 \<le> r" "0 \<le> c" "0 \<le> r'" "0 \<le> c'" "nat r < n" "nat c < n" "nat r' < n" "nat c' < n"
    using p q by (auto simp: pe qe inGrid_def)
  have l: "length g = n" "length (g ! nat r) = n"
    using sq b by (simp_all add: square_def)
  have e: "nat r' = nat r \<longleftrightarrow> r' = r" "nat c' = nat c \<longleftrightarrow> c' = c"
    using b by arith+
  show ?thesis
  proof (cases "r' = r")
    case True
    show ?thesis
    proof (cases "c' = c")
      case c: True
      with True b l show ?thesis by (simp add: cellAt_def pe qe)
    next
      case c: False
      then have "nat c' \<noteq> nat c" using e by simp
      with True c b l show ?thesis by (simp add: cellAt_def pe qe)
    qed
  next
    case False
    then have "nat r' \<noteq> nat r" using e by simp
    then show ?thesis using False b l
      by (simp add: cellAt_def pe qe)
  qed
qed

lemma randomInt_less: "0 < n \<Longrightarrow> fst (randomInt n rnd) < n"
  by (simp add: randomInt_def)

lemma randomInt_zero: "fst (randomInt 0 rnd) = 0"
  by (simp add: randomInt_def)

lemma shuffleLoop_mset:
  "k < length a \<or> k = 0 \<Longrightarrow> mset (fst (shuffleLoop k a rnd)) = mset a"
proof (induction k arbitrary: a rnd)
  case 0
  then show ?case by simp
next
  case (Suc k)
  then have i: "Suc k < length a" by simp
  obtain j rnd' where j: "randomInt (Suc k + 1) rnd = (j, rnd')" by (cases "randomInt (Suc k + 1) rnd")
  have "j < Suc k + 1" using randomInt_less [of "Suc k + 1" rnd] j by simp
  then have jl: "j < length a" using i by simp
  let ?a = "a[Suc k := a ! j, j := a ! (Suc k)]"
  have m: "mset ?a = mset a" using i jl by (simp add: mset_swap)
  have "k < length ?a \<or> k = 0" using i by simp
  then have "mset (fst (shuffleLoop k ?a rnd')) = mset ?a" by (rule Suc.IH)
  with m j show ?case by (simp add: Let_def)
qed

lemma shuffle_mset: "mset (fst (shuffle arr rnd)) = mset arr"
  unfolding shuffle_def by (rule shuffleLoop_mset) (cases arr; simp)

lemma shuffle_set: "shuffle arr rnd = (a, rnd') \<Longrightarrow> set a = set arr"
  using shuffle_mset [of arr rnd] by (metis fst_conv mset_eq_setD)

lemma shuffle_length: "shuffle arr rnd = (a, rnd') \<Longrightarrow> length a = length arr"
  using shuffle_mset [of arr rnd] by (metis fst_conv mset_eq_length)

lemma canPlaceLoop_iff:
  "canPlaceLoop g w r0 c0 dr dc i \<longleftrightarrow>
     (\<forall>j. i \<le> j \<and> j < length w \<longrightarrow> canPlaceAt g w r0 c0 dr dc j)"
proof (induction g w r0 c0 dr dc i rule: canPlaceLoop.induct)
  case (1 g w r0 c0 dr dc i)
  show ?case
  proof (cases "i < length w")
    case False
    then show ?thesis by (subst canPlaceLoop.simps) auto
  next
    case True
    show ?thesis
    proof (cases "canPlaceAt g w r0 c0 dr dc i")
      case False
      with True show ?thesis by (subst canPlaceLoop.simps) auto
    next
      case c: True
      have "canPlaceLoop g w r0 c0 dr dc i = canPlaceLoop g w r0 c0 dr dc (Suc i)"
        using True c by (subst canPlaceLoop.simps) simp
      also have "\<dots> = (\<forall>j. Suc i \<le> j \<and> j < length w \<longrightarrow> canPlaceAt g w r0 c0 dr dc j)"
        using 1 True c by simp
      also have "\<dots> = (\<forall>j. i \<le> j \<and> j < length w \<longrightarrow> canPlaceAt g w r0 c0 dr dc j)"
      proof (intro iffI allI impI)
        fix j assume a: "\<forall>j. Suc i \<le> j \<and> j < length w \<longrightarrow> canPlaceAt g w r0 c0 dr dc j"
          and b: "i \<le> j \<and> j < length w"
        show "canPlaceAt g w r0 c0 dr dc j"
        proof (cases "j = i")
          case True then show ?thesis using c by simp
        next
          case False
          then have "Suc i \<le> j \<and> j < length w" using b by simp
          then show ?thesis using a by blast
        qed
      next
        fix j assume a: "\<forall>j. i \<le> j \<and> j < length w \<longrightarrow> canPlaceAt g w r0 c0 dr dc j"
          and b: "Suc i \<le> j \<and> j < length w"
        then have "i \<le> j \<and> j < length w" by simp
        then show "canPlaceAt g w r0 c0 dr dc j" using a by blast
      qed
      finally show ?thesis .
    qed
  qed
qed

lemma canPlace_iff:
  "canPlace g w r0 c0 dr dc \<longleftrightarrow> (\<forall>j < length w. canPlaceAt g w r0 c0 dr dc j)"
  by (simp add: canPlace_def canPlaceLoop_iff)

lemma canPlaceAt_square:
  "square n g \<Longrightarrow>
     canPlaceAt g w r0 c0 dr dc j \<longleftrightarrow>
       inGrid n (pos r0 c0 dr dc j) \<and>
       (cellAt g (pos r0 c0 dr dc j) = Null \<or> cellAt g (pos r0 c0 dr dc j) = Ch (w ! j))"
proof -
  assume sq: "square n g"
  then have l: "length g = n" by (simp add: square_def)
  show ?thesis
  proof (cases "inGrid n (pos r0 c0 dr dc j)")
    case False
    then show ?thesis by (auto simp: canPlaceAt_def Let_def l inGrid_def pos_def)
  next
    case True
    then have "gridAt g (r0 + int j * dr) (c0 + int j * dc) = Inr (cellAt g (pos r0 c0 dr dc j))"
      using gridAt_in [OF sq] by (simp add: pos_def)
    with True show ?thesis
      by (auto simp: canPlaceAt_def Let_def l inGrid_def pos_def)
  qed
qed

lemma pos_inj:
  assumes "(dr, dc) \<in> set DIRECTIONS" and "pos r0 c0 dr dc j = pos r0 c0 dr dc k"
  shows "j = k"
proof -
  have "dr \<noteq> 0 \<or> dc \<noteq> 0" using assms(1) by (auto simp: DIRECTIONS_def)
  moreover have "int j * dr = int k * dr" "int j * dc = int k * dc"
    using assms(2) by (simp_all add: pos_def)
  ultimately show ?thesis by auto
qed

lemma placeWordLoop_ok:
  assumes "(dr, dc) \<in> set DIRECTIONS"
  shows "square n g \<Longrightarrow> \<forall>j. i \<le> j \<and> j < length w \<longrightarrow> inGrid n (pos r0 c0 dr dc j) \<Longrightarrow>
     \<exists>g'. placeWordLoop g w r0 c0 dr dc i = Inr g' \<and> square n g' \<and>
       (\<forall>j. i \<le> j \<and> j < length w \<longrightarrow> cellAt g' (pos r0 c0 dr dc j) = Ch (w ! j)) \<and>
       (\<forall>q. inGrid n q \<longrightarrow> (\<forall>j. i \<le> j \<and> j < length w \<longrightarrow> pos r0 c0 dr dc j \<noteq> q) \<longrightarrow>
            cellAt g' q = cellAt g q)"
proof (induction "length w - i" arbitrary: g i)
  case 0
  then have "\<not> i < length w" by simp
  then have "placeWordLoop g w r0 c0 dr dc i = Inr g"
    by (subst placeWordLoop.simps) simp
  with 0 show ?case by auto
next
  case (Suc m)
  then have il: "i < length w" by simp
  let ?p = "pos r0 c0 dr dc i"
  let ?g1 = "g[nat (fst ?p) := (g ! nat (fst ?p))[nat (snd ?p) := Ch (w ! i)]]"
  have pin: "inGrid n ?p" using Suc.prems(2) il by simp
  have sq: "square n g" by (rule Suc.prems(1))
  have gs: "gridSet g (row0 + int i * dr) (col0 + int i * dc) (Ch (w ! i)) = Inr ?g1"
    if "row0 = r0" "col0 = c0" for row0 col0
    using gridSet_in [OF sq, of "fst ?p" "snd ?p"] pin that by (simp add: pos_def)
  have sq1: "square n ?g1" using sq by (rule square_update)
  have m: "m = length w - Suc i" using Suc.hyps(2) by simp
  have inb: "\<forall>j. Suc i \<le> j \<and> j < length w \<longrightarrow> inGrid n (pos r0 c0 dr dc j)"
    using Suc.prems(2) by simp
  from Suc.hyps(1) [OF m sq1 inb] obtain g' where
    g': "placeWordLoop ?g1 w r0 c0 dr dc (Suc i) = Inr g'" "square n g'"
    "\<forall>j. Suc i \<le> j \<and> j < length w \<longrightarrow> cellAt g' (pos r0 c0 dr dc j) = Ch (w ! j)"
    "\<forall>q. inGrid n q \<longrightarrow> (\<forall>j. Suc i \<le> j \<and> j < length w \<longrightarrow> pos r0 c0 dr dc j \<noteq> q) \<longrightarrow>
            cellAt g' q = cellAt ?g1 q"
    by blast
  have run: "placeWordLoop g w r0 c0 dr dc i = Inr g'"
    using il gs g'(1) by (subst placeWordLoop.simps) simp
  have notlater: "\<forall>j. Suc i \<le> j \<and> j < length w \<longrightarrow> pos r0 c0 dr dc j \<noteq> ?p"
    using pos_inj [OF assms] by fastforce
  have "cellAt g' ?p = cellAt ?g1 ?p"
    using g'(4) pin notlater by blast
  also have "\<dots> = Ch (w ! i)"
    using cellAt_update [OF sq pin pin] by simp
  finally have ati: "cellAt g' ?p = Ch (w ! i)" .
  have written: "\<forall>j. i \<le> j \<and> j < length w \<longrightarrow> cellAt g' (pos r0 c0 dr dc j) = Ch (w ! j)"
  proof (intro allI impI)
    fix j assume j: "i \<le> j \<and> j < length w"
    show "cellAt g' (pos r0 c0 dr dc j) = Ch (w ! j)"
    proof (cases "j = i")
      case True then show ?thesis using ati by simp
    next
      case False
      then have "Suc i \<le> j \<and> j < length w" using j by simp
      then show ?thesis using g'(3) by blast
    qed
  qed
  have other: "\<forall>q. inGrid n q \<longrightarrow> (\<forall>j. i \<le> j \<and> j < length w \<longrightarrow> pos r0 c0 dr dc j \<noteq> q) \<longrightarrow>
            cellAt g' q = cellAt g q"
  proof (intro allI impI)
    fix q assume q: "inGrid n q" and nq: "\<forall>j. i \<le> j \<and> j < length w \<longrightarrow> pos r0 c0 dr dc j \<noteq> q"
    have "q \<noteq> ?p" using nq il by auto
    then have "cellAt ?g1 q = cellAt g q" using cellAt_update [OF sq pin q] by simp
    moreover have nq': "\<forall>j. Suc i \<le> j \<and> j < length w \<longrightarrow> pos r0 c0 dr dc j \<noteq> q"
      using nq by (metis Suc_leD)
    have "cellAt g' q = cellAt ?g1 q" using g'(4) q nq' by blast
    ultimately show "cellAt g' q = cellAt g q" by simp
  qed
  from run g'(2) written other show ?case by blast
qed

lemma placeWord_ok:
  assumes sq: "square n g" and d: "(dr, dc) \<in> set DIRECTIONS"
    and cp: "canPlace g w r0 c0 dr dc"
  shows "\<exists>g'. placeWord g w r0 c0 dr dc = Inr g' \<and> square n g' \<and>
       (\<forall>j < length w. inGrid n (pos r0 c0 dr dc j) \<and> cellAt g' (pos r0 c0 dr dc j) = Ch (w ! j)) \<and>
       (\<forall>q. inGrid n q \<longrightarrow> cellAt g q \<noteq> Null \<longrightarrow> cellAt g' q = cellAt g q) \<and>
       (\<forall>q. inGrid n q \<longrightarrow> cellAt g' q \<noteq> cellAt g q \<longrightarrow> (\<exists>j < length w. q = pos r0 c0 dr dc j))"
proof -
  have c: "\<forall>j < length w. inGrid n (pos r0 c0 dr dc j) \<and>
       (cellAt g (pos r0 c0 dr dc j) = Null \<or> cellAt g (pos r0 c0 dr dc j) = Ch (w ! j))"
    using cp canPlaceAt_square [OF sq] by (simp add: canPlace_iff)
  then have inb: "\<forall>j. 0 \<le> j \<and> j < length w \<longrightarrow> inGrid n (pos r0 c0 dr dc j)" by simp
  from placeWordLoop_ok [OF d sq inb] obtain g' where
    g': "placeWordLoop g w r0 c0 dr dc 0 = Inr g'" "square n g'"
    "\<forall>j. 0 \<le> j \<and> j < length w \<longrightarrow> cellAt g' (pos r0 c0 dr dc j) = Ch (w ! j)"
    "\<forall>q. inGrid n q \<longrightarrow> (\<forall>j. 0 \<le> j \<and> j < length w \<longrightarrow> pos r0 c0 dr dc j \<noteq> q) \<longrightarrow>
            cellAt g' q = cellAt g q"
    by blast
  have a: "\<forall>j < length w. inGrid n (pos r0 c0 dr dc j) \<and> cellAt g' (pos r0 c0 dr dc j) = Ch (w ! j)"
    using c g'(3) by simp
  have b: "\<forall>q. inGrid n q \<longrightarrow> cellAt g' q \<noteq> cellAt g q \<longrightarrow> (\<exists>j < length w. q = pos r0 c0 dr dc j)"
    using g'(4) by fastforce
  have e: "\<forall>q. inGrid n q \<longrightarrow> cellAt g q \<noteq> Null \<longrightarrow> cellAt g' q = cellAt g q"
  proof (intro allI impI)
    fix q assume q: "inGrid n q" and nn: "cellAt g q \<noteq> Null"
    show "cellAt g' q = cellAt g q"
    proof (cases "\<exists>j < length w. q = pos r0 c0 dr dc j")
      case True
      then obtain j where j: "j < length w" "q = pos r0 c0 dr dc j" by blast
      then have "cellAt g q = Ch (w ! j)" using c nn by blast
      moreover have "cellAt g' q = Ch (w ! j)" using a j by blast
      ultimately show ?thesis by simp
    next
      case False
      then show ?thesis using b q by blast
    qed
  qed
  from g'(1,2) a e b show ?thesis unfolding placeWord_def by blast
qed

lemma extends_refl: "extends n g g"
  by (simp add: extends_def)

lemma extends_trans: "extends n g g' \<Longrightarrow> extends n g' g'' \<Longrightarrow> extends n g g''"
  unfolding extends_def by metis

lemma placedIn_extends: "placedIn n g p \<Longrightarrow> extends n g g' \<Longrightarrow> placedIn n g' p"
  unfolding placedIn_def extends_def by (metis jsval.distinct(5))

lemma zip_dirs_fst: "(d, nm) \<in> set (zip DIRECTIONS DIRECTION_NAMES) \<Longrightarrow> d \<in> set DIRECTIONS"
  by (rule set_zip_leftD)

lemma tryPlaceLoop_ok:
  assumes ds: "set dirs \<subseteq> set (zip DIRECTIONS DIRECTION_NAMES)" and dne: "dirs \<noteq> []"
    and sq: "square n g"
  shows "\<exists>popt g' rnd'. tryPlaceLoop g w dirs m a rnd = Inr (popt, g', rnd') \<and>
      square n g' \<and> extends n g g' \<and>
      (case popt of
         None \<Rightarrow> g' = g
       | Some p \<Rightarrow> p_word p = w \<and> placedIn n g' p \<and>
           canPlace g w (p_row p) (p_col p) (p_dr p) (p_dc p) \<and>
           (\<forall>q. inGrid n q \<longrightarrow> cellAt g' q \<noteq> cellAt g q \<longrightarrow>
               (\<exists>j < length w. q = pos (p_row p) (p_col p) (p_dr p) (p_dc p) j)))"
proof (induction "m - a" arbitrary: a rnd)
  case 0
  then have "\<not> a < m" by simp
  then have "tryPlaceLoop g w dirs m a rnd = Inr (None, g, rnd)"
    by (subst tryPlaceLoop.simps) simp
  then show ?case using sq by (simp add: extends_refl)
next
  case (Suc k)
  then have am: "a < m" by simp
  obtain row0 rnd1 where r1: "randomInt (length g) rnd = (row0, rnd1)"
    by (cases "randomInt (length g) rnd")
  obtain col0 rnd2 where r2: "randomInt (length g) rnd1 = (col0, rnd2)"
    by (cases "randomInt (length g) rnd1")
  obtain dr dc nm where d: "dirs ! (a mod length dirs) = ((dr, dc), nm)"
    by (metis prod.exhaust)
  have "a mod length dirs < length dirs" using dne by simp
  then have "dirs ! (a mod length dirs) \<in> set dirs" by (rule nth_mem)
  then have dz: "((dr, dc), nm) \<in> set (zip DIRECTIONS DIRECTION_NAMES)" using ds d by auto
  then have dd: "(dr, dc) \<in> set DIRECTIONS" by (rule zip_dirs_fst)
  have ln: "length dirs \<noteq> 0" using dne by simp
  show ?case
  proof (cases "canPlace g w (int row0) (int col0) dr dc")
    case False
    have "tryPlaceLoop g w dirs m a rnd = tryPlaceLoop g w dirs m (Suc a) rnd2"
      using am r1 r2 d ln False by (subst tryPlaceLoop.simps) (simp add: Let_def)
    moreover have "k = m - Suc a" using Suc.hyps(2) by simp
    ultimately show ?thesis using Suc.hyps(1) [of "Suc a" rnd2] by simp
  next
    case True
    from placeWord_ok [OF sq dd True] obtain g' where
      g': "placeWord g w (int row0) (int col0) dr dc = Inr g'" "square n g'"
      "\<forall>j < length w. inGrid n (pos (int row0) (int col0) dr dc j)
          \<and> cellAt g' (pos (int row0) (int col0) dr dc j) = Ch (w ! j)"
      "\<forall>q. inGrid n q \<longrightarrow> cellAt g q \<noteq> Null \<longrightarrow> cellAt g' q = cellAt g q"
      "\<forall>q. inGrid n q \<longrightarrow> cellAt g' q \<noteq> cellAt g q
          \<longrightarrow> (\<exists>j < length w. q = pos (int row0) (int col0) dr dc j)"
      by blast
    let ?p = "\<lparr>p_word = w, p_row = int row0, p_col = int col0, p_direction = nm,
               p_dr = dr, p_dc = dc, p_cells = cellsOf w (int row0) (int col0) dr dc\<rparr>"
    have run: "tryPlaceLoop g w dirs m a rnd = Inr (Some ?p, g', rnd2)"
      using am r1 r2 d ln True g'(1) by (subst tryPlaceLoop.simps) (simp add: Let_def)
    have pl: "placedIn n g' ?p" using dz g'(3) by (simp add: placedIn_def)
    have ex: "extends n g g'" using g'(4) by (simp add: extends_def)
    show ?thesis
      unfolding run using g'(2) ex pl True g'(5) by simp
  qed
qed

lemma tryPlaceWord_ok:
  assumes sq: "square n g"
  shows "\<exists>popt g' rnd'. tryPlaceWord g w rnd = Inr (popt, g', rnd') \<and>
      square n g' \<and> extends n g g' \<and>
      (case popt of
         None \<Rightarrow> g' = g
       | Some p \<Rightarrow> p_word p = w \<and> placedIn n g' p \<and>
           canPlace g w (p_row p) (p_col p) (p_dr p) (p_dc p) \<and>
           (\<forall>q. inGrid n q \<longrightarrow> cellAt g' q \<noteq> cellAt g q \<longrightarrow>
               (\<exists>j < length w. q = pos (p_row p) (p_col p) (p_dr p) (p_dc p) j)))"
proof -
  obtain dirs rnd0 where sh: "shuffle (zip DIRECTIONS DIRECTION_NAMES) rnd = (dirs, rnd0)"
    by (cases "shuffle (zip DIRECTIONS DIRECTION_NAMES) rnd")
  have s: "set dirs \<subseteq> set (zip DIRECTIONS DIRECTION_NAMES)"
    using shuffle_set [OF sh] by simp
  have "length dirs = length (zip DIRECTIONS DIRECTION_NAMES)" using sh by (rule shuffle_length)
  then have ne: "dirs \<noteq> []" by (auto simp: DIRECTIONS_def DIRECTION_NAMES_def)
  show ?thesis
    unfolding tryPlaceWord_def sh using tryPlaceLoop_ok [OF s ne sq] by simp
qed

lemma canPlace_length:
  assumes sq: "square n g" and d: "(dr, dc) \<in> set DIRECTIONS"
    and cp: "canPlace g w r0 c0 dr dc"
  shows "length w \<le> n"
proof (cases "w = []")
  case True then show ?thesis by simp
next
  case False
  then have l: "0 < length w" by simp
  let ?k = "length w - 1"
  have kl: "?k < length w" using l by simp
  have a: "inGrid n (pos r0 c0 dr dc 0)" and b: "inGrid n (pos r0 c0 dr dc ?k)"
    using cp l kl canPlaceAt_square [OF sq] unfolding canPlace_iff by blast+
  have u: "dr = 1 \<or> dr = -1 \<or> dc = 1 \<or> dc = -1" using d by (auto simp: DIRECTIONS_def)
  have "int ?k < int n"
    using a b u by (auto simp: inGrid_def pos_def)
  then show ?thesis using l by simp
qed

lemma covered_step:
  assumes cov: "covered n g ps" and ex: "extends n g g'" and pl: "placedIn n g' p"
    and ch: "\<forall>q. inGrid n q \<longrightarrow> cellAt g' q \<noteq> cellAt g q \<longrightarrow>
               (\<exists>j < length (p_word p). q = pos (p_row p) (p_col p) (p_dr p) (p_dc p) j)"
  shows "covered n g' (ps @ [p])"
  unfolding covered_def
proof (intro allI impI)
  fix q assume q: "inGrid n q"
  show "cellAt g' q = Null \<or>
        (\<exists>p' \<in> set (ps @ [p]). \<exists>j < length (p_word p').
            q = pos (p_row p') (p_col p') (p_dr p') (p_dc p') j \<and> cellAt g' q = Ch (p_word p' ! j))"
  proof (cases "cellAt g' q = cellAt g q")
    case True
    then show ?thesis using cov q unfolding covered_def by fastforce
  next
    case False
    then obtain j where j: "j < length (p_word p)" "q = pos (p_row p) (p_col p) (p_dr p) (p_dc p) j"
      using ch q by blast
    then have "cellAt g' q = Ch (p_word p ! j)" using pl unfolding placedIn_def by blast
    with j show ?thesis by auto
  qed
qed

lemma wordLoop_ok:
  "square n g \<Longrightarrow> \<forall>p \<in> set ps. placedIn n g p \<Longrightarrow> covered n g ps \<Longrightarrow>
   \<exists>g' ps2 sk2 rnd' pl. wordLoop lc n ws g ps sk rnd = Inr (g', ps @ ps2, sk @ sk2, rnd') \<and>
     square n g' \<and> (\<forall>p \<in> set (ps @ ps2). placedIn n g' p) \<and> covered n g' (ps @ ps2) \<and>
     mset ws = mset pl + mset sk2 \<and> map p_word ps2 = map lc pl \<and>
     (\<forall>p \<in> set ps2. length (p_word p) \<le> maxLength n \<and> length (p_word p) \<le> n)"
proof (induction ws arbitrary: g ps sk rnd)
  case Nil
  have "wordLoop lc n [] g ps sk rnd = Inr (g, ps @ [], sk @ [], rnd)" by simp
  moreover have "mset ([]::jsstring list) = mset [] + mset []" by simp
  ultimately show ?case using Nil by (metis append_Nil2 list.simps(8) empty_iff list.set(1))
next
  case (Cons w ws)
  show ?case
  proof (cases "length (lc w) > maxLength n")
    case True
    from Cons.IH [OF Cons.prems, of "sk @ [w]" rnd] obtain g' ps2 sk2 rnd' pl where
      ih: "wordLoop lc n ws g ps (sk @ [w]) rnd = Inr (g', ps @ ps2, (sk @ [w]) @ sk2, rnd')"
      "square n g'" "\<forall>p \<in> set (ps @ ps2). placedIn n g' p" "covered n g' (ps @ ps2)"
      "mset ws = mset pl + mset sk2" "map p_word ps2 = map lc pl"
      "\<forall>p \<in> set ps2. length (p_word p) \<le> maxLength n \<and> length (p_word p) \<le> n"
      by blast
    have run: "wordLoop lc n (w # ws) g ps sk rnd = Inr (g', ps @ ps2, sk @ (w # sk2), rnd')"
      using True ih(1) by (simp add: Let_def)
    have m: "mset (w # ws) = mset pl + mset (w # sk2)" using ih(5) by simp
    from run ih(2,3,4) m ih(6,7) show ?thesis by blast
  next
    case False
    from tryPlaceWord_ok [OF Cons.prems(1), of "lc w" rnd] obtain popt g1 rnd1 where
      t: "tryPlaceWord g (lc w) rnd = Inr (popt, g1, rnd1)" "square n g1" "extends n g g1"
      "case popt of
         None \<Rightarrow> g1 = g
       | Some p \<Rightarrow> p_word p = lc w \<and> placedIn n g1 p \<and>
           canPlace g (lc w) (p_row p) (p_col p) (p_dr p) (p_dc p) \<and>
           (\<forall>q. inGrid n q \<longrightarrow> cellAt g1 q \<noteq> cellAt g q \<longrightarrow>
               (\<exists>j < length (lc w). q = pos (p_row p) (p_col p) (p_dr p) (p_dc p) j))"
      by blast
    show ?thesis
    proof (cases popt)
      case None
      then have g1: "g1 = g" using t(4) by simp
      from Cons.IH [OF Cons.prems, of "sk @ [w]" rnd1] obtain g' ps2 sk2 rnd' pl where
        ih: "wordLoop lc n ws g ps (sk @ [w]) rnd1 = Inr (g', ps @ ps2, (sk @ [w]) @ sk2, rnd')"
        "square n g'" "\<forall>p \<in> set (ps @ ps2). placedIn n g' p" "covered n g' (ps @ ps2)"
        "mset ws = mset pl + mset sk2" "map p_word ps2 = map lc pl"
        "\<forall>p \<in> set ps2. length (p_word p) \<le> maxLength n \<and> length (p_word p) \<le> n"
        by blast
      have run: "wordLoop lc n (w # ws) g ps sk rnd = Inr (g', ps @ ps2, sk @ (w # sk2), rnd')"
        using False ih(1) t(1) None g1 by (simp add: Let_def)
      have m: "mset (w # ws) = mset pl + mset (w # sk2)" using ih(5) by simp
      from run ih(2,3,4) m ih(6,7) show ?thesis by blast
    next
      case (Some p)
      then have p: "p_word p = lc w" "placedIn n g1 p"
        "canPlace g (lc w) (p_row p) (p_col p) (p_dr p) (p_dc p)"
        "\<forall>q. inGrid n q \<longrightarrow> cellAt g1 q \<noteq> cellAt g q \<longrightarrow>
               (\<exists>j < length (p_word p). q = pos (p_row p) (p_col p) (p_dr p) (p_dc p) j)"
        using t(4) by simp_all
      have dd: "(p_dr p, p_dc p) \<in> set DIRECTIONS"
        using p(2) zip_dirs_fst unfolding placedIn_def by blast
      have len: "length (p_word p) \<le> n"
        using canPlace_length [OF Cons.prems(1) dd p(3)] p(1) by simp
      have lenm: "length (p_word p) \<le> maxLength n" using False p(1) by simp
      have pl1: "\<forall>p' \<in> set (ps @ [p]). placedIn n g1 p'"
        using Cons.prems(2) t(3) p(2) placedIn_extends by auto
      have cov1: "covered n g1 (ps @ [p])"
        using Cons.prems(3) t(3) p(2) p(4) by (rule covered_step)
      from Cons.IH [OF t(2) pl1 cov1, of sk rnd1] obtain g' ps2 sk2 rnd' pl where
        ih: "wordLoop lc n ws g1 (ps @ [p]) sk rnd1 = Inr (g', (ps @ [p]) @ ps2, sk @ sk2, rnd')"
        "square n g'" "\<forall>p \<in> set ((ps @ [p]) @ ps2). placedIn n g' p"
        "covered n g' ((ps @ [p]) @ ps2)"
        "mset ws = mset pl + mset sk2" "map p_word ps2 = map lc pl"
        "\<forall>p \<in> set ps2. length (p_word p) \<le> maxLength n \<and> length (p_word p) \<le> n"
        by blast
      have run: "wordLoop lc n (w # ws) g ps sk rnd = Inr (g', ps @ (p # ps2), sk @ sk2, rnd')"
        using False ih(1) t(1) Some by (simp add: Let_def)
      have m: "mset (w # ws) = mset (w # pl) + mset sk2" using ih(5) by simp
      have mp: "map p_word (p # ps2) = map lc (w # pl)" using ih(6) p(1) by simp
      have b: "\<forall>p' \<in> set (p # ps2). length (p_word p') \<le> maxLength n \<and> length (p_word p') \<le> n"
        using ih(7) len lenm by simp
      have a3: "\<forall>p' \<in> set (ps @ (p # ps2)). placedIn n g' p'" using ih(3) by simp
      have a4: "covered n g' (ps @ (p # ps2))" using ih(4) by simp
      from run ih(2) a3 a4 m mp b show ?thesis by blast
    qed
  qed
qed

lemma fillerVals_not_Null: "v \<in> fillerVals lang \<Longrightarrow> v \<noteq> Null"
  by (auto simp: fillerVals_def split: jsprop.splits)

lemma alphabetOf_ne: "alphabetOf lang \<noteq> Letters []"
  by (simp add: alphabetOf_def ALPHABETS_def str_def)

lemma randomChar_filler:
  "\<exists>v rnd'. randomChar lang rnd = (v, rnd') \<and> v \<in> fillerVals lang"
proof (cases "alphabetOf lang")
  case Inherited
  then show ?thesis by (simp add: randomChar_def fillerVals_def)
next
  case (Letters a)
  obtain k rnd' where k: "randomInt (length a) rnd = (k, rnd')"
    by (cases "randomInt (length a) rnd")
  have "a \<noteq> []" using alphabetOf_ne [of lang] Letters by auto
  then have "0 < length a" by simp
  then have "fst (randomInt (length a) rnd) < length a" by (rule randomInt_less)
  then have kl: "k < length a" using k by simp
  then have m: "a ! k \<in> set a" by (rule nth_mem)
  have "randomChar lang rnd = (Ch (a ! k), rnd')"
    unfolding randomChar_def Letters Let_def using k kl by simp
  moreover have "Ch (a ! k) \<in> fillerVals lang" using m Letters by (simp add: fillerVals_def)
  ultimately show ?thesis by blast
qed

lemma fillRow_ok:
  assumes rn: "r < n"
  shows "square n g \<Longrightarrow>
    \<exists>g' rnd'. fillRow g lang n r c rnd = Inr (g', rnd') \<and> square n g' \<and>
      (\<forall>q. inGrid n q \<longrightarrow>
         (if cellAt g q = Null \<and> fst q = int r \<and> int c \<le> snd q
          then cellAt g' q \<in> fillerVals lang
          else cellAt g' q = cellAt g q))"
proof (induction "n - c" arbitrary: g c rnd)
  case 0
  then have "\<not> c < n" by simp
  then have "fillRow g lang n r c rnd = Inr (g, rnd)"
    by (subst fillRow.simps) simp
  moreover have "\<forall>q. inGrid n q \<longrightarrow> \<not> (int c \<le> snd q)"
    using \<open>\<not> c < n\<close> by (auto simp: inGrid_def)
  ultimately show ?case using 0 by fastforce
next
  case (Suc k)
  then have cn: "c < n" by simp
  have sq: "square n g" by (rule Suc.prems)
  let ?q = "(int r, int c)"
  have qin: "inGrid n ?q" using rn cn by (simp add: inGrid_def)
  have ga: "gridAt g (int r) (int c) = Inr (cellAt g ?q)" using gridAt_in [OF sq qin] .
  have km: "k = n - Suc c" using Suc.hyps(2) by simp
  show ?case
  proof (cases "cellAt g ?q = Null")
    case False
    have run: "fillRow g lang n r c rnd = fillRow g lang n r (Suc c) rnd"
      using cn ga False by (subst fillRow.simps) simp
    from Suc.hyps(1) [OF km sq, of rnd] obtain g' rnd' where
      ih: "fillRow g lang n r (Suc c) rnd = Inr (g', rnd')" "square n g'"
      "\<forall>q. inGrid n q \<longrightarrow>
         (if cellAt g q = Null \<and> fst q = int r \<and> int (Suc c) \<le> snd q
          then cellAt g' q \<in> fillerVals lang
          else cellAt g' q = cellAt g q)"
      by blast
    have main: "\<forall>q. inGrid n q \<longrightarrow>
         (if cellAt g q = Null \<and> fst q = int r \<and> int c \<le> snd q
          then cellAt g' q \<in> fillerVals lang
          else cellAt g' q = cellAt g q)"
    proof (intro allI impI)
      fix q assume q: "inGrid n q"
      have i: "if cellAt g q = Null \<and> fst q = int r \<and> int (Suc c) \<le> snd q
          then cellAt g' q \<in> fillerVals lang
          else cellAt g' q = cellAt g q"
        using ih(3) q by blast
      show "if cellAt g q = Null \<and> fst q = int r \<and> int c \<le> snd q
          then cellAt g' q \<in> fillerVals lang
          else cellAt g' q = cellAt g q"
      proof (cases "q = ?q")
        case True
        then show ?thesis using False i by auto
      next
        case nq: False
        then have "(fst q = int r \<and> int c \<le> snd q) = (fst q = int r \<and> int (Suc c) \<le> snd q)"
          by (cases q) auto
        then show ?thesis using i by auto
      qed
    qed
    have run': "fillRow g lang n r c rnd = Inr (g', rnd')" using run ih(1) by simp
    show ?thesis
      by (rule exI [of _ g'], rule exI [of _ rnd'], intro conjI, rule run', rule ih(2), rule main)
  next
    case True
    obtain v rnd1 where rc: "randomChar lang rnd = (v, rnd1)" "v \<in> fillerVals lang"
      using randomChar_filler by blast
    have vn: "v \<noteq> Null" using rc(2) by (rule fillerVals_not_Null)
    let ?g1 = "g[nat (fst ?q) := (g ! nat (fst ?q))[nat (snd ?q) := v]]"
    have gs: "gridSet g (int r) (int c) v = Inr ?g1"
      using gridSet_in [OF sq qin] by simp
    have sq1: "square n ?g1" using sq by (rule square_update)
    from Suc.hyps(1) [OF km sq1, of rnd1] obtain g' rnd' where
      ih: "fillRow ?g1 lang n r (Suc c) rnd1 = Inr (g', rnd')" "square n g'"
      "\<forall>q. inGrid n q \<longrightarrow>
         (if cellAt ?g1 q = Null \<and> fst q = int r \<and> int (Suc c) \<le> snd q
          then cellAt g' q \<in> fillerVals lang
          else cellAt g' q = cellAt ?g1 q)"
      by blast
    have run: "fillRow g lang n r c rnd = Inr (g', rnd')"
      using cn ga True rc(1) gs ih(1) by (subst fillRow.simps) simp
    have main: "\<forall>q. inGrid n q \<longrightarrow>
         (if cellAt g q = Null \<and> fst q = int r \<and> int c \<le> snd q
          then cellAt g' q \<in> fillerVals lang
          else cellAt g' q = cellAt g q)"
    proof (intro allI impI)
      fix q assume q: "inGrid n q"
      have up: "cellAt ?g1 q = (if q = ?q then v else cellAt g q)"
        using cellAt_update [OF sq qin q] .
      have i: "if cellAt ?g1 q = Null \<and> fst q = int r \<and> int (Suc c) \<le> snd q
          then cellAt g' q \<in> fillerVals lang
          else cellAt g' q = cellAt ?g1 q"
        using ih(3) q by blast
      show "if cellAt g q = Null \<and> fst q = int r \<and> int c \<le> snd q
          then cellAt g' q \<in> fillerVals lang
          else cellAt g' q = cellAt g q"
      proof (cases "q = ?q")
        case qq: True
        then have "cellAt ?g1 q = v" using up by simp
        then have "cellAt g' q = v" using i vn by simp
        then show ?thesis using qq True rc(2) by auto
      next
        case nq: False
        then have e: "(fst q = int r \<and> int c \<le> snd q) = (fst q = int r \<and> int (Suc c) \<le> snd q)"
          by (cases q) auto
        have "cellAt ?g1 q = cellAt g q" using up nq by simp
        then show ?thesis using i e by auto
      qed
    qed
    show ?thesis
      by (rule exI [of _ g'], rule exI [of _ rnd'], intro conjI, rule run, rule ih(2), rule main)
  qed
qed

lemma fillRows_ok:
  "square n g \<Longrightarrow>
    \<exists>g' rnd'. fillRows g lang n r rnd = Inr (g', rnd') \<and> square n g' \<and>
      (\<forall>q. inGrid n q \<longrightarrow>
         (if cellAt g q = Null \<and> int r \<le> fst q
          then cellAt g' q \<in> fillerVals lang
          else cellAt g' q = cellAt g q))"
proof (induction "n - r" arbitrary: g r rnd)
  case 0
  then have "\<not> r < n" by simp
  then have "fillRows g lang n r rnd = Inr (g, rnd)"
    by (subst fillRows.simps) simp
  moreover have "\<forall>q. inGrid n q \<longrightarrow> \<not> (int r \<le> fst q)"
    using \<open>\<not> r < n\<close> by (auto simp: inGrid_def)
  ultimately show ?case using 0 by fastforce
next
  case (Suc k)
  then have rn: "r < n" by simp
  have sq: "square n g" by (rule Suc.prems)
  from fillRow_ok [OF rn sq, of lang 0 rnd] obtain g1 rnd1 where
    f: "fillRow g lang n r 0 rnd = Inr (g1, rnd1)" "square n g1"
    "\<forall>q. inGrid n q \<longrightarrow>
         (if cellAt g q = Null \<and> fst q = int r \<and> int 0 \<le> snd q
          then cellAt g1 q \<in> fillerVals lang
          else cellAt g1 q = cellAt g q)"
    by blast
  have km: "k = n - Suc r" using Suc.hyps(2) by simp
  from Suc.hyps(1) [OF km f(2), of rnd1] obtain g' rnd' where
    ih: "fillRows g1 lang n (Suc r) rnd1 = Inr (g', rnd')" "square n g'"
    "\<forall>q. inGrid n q \<longrightarrow>
         (if cellAt g1 q = Null \<and> int (Suc r) \<le> fst q
          then cellAt g' q \<in> fillerVals lang
          else cellAt g' q = cellAt g1 q)"
    by blast
  have run: "fillRows g lang n r rnd = Inr (g', rnd')"
    using rn f(1) ih(1) by (subst fillRows.simps) simp
  have main: "\<forall>q. inGrid n q \<longrightarrow>
         (if cellAt g q = Null \<and> int r \<le> fst q
          then cellAt g' q \<in> fillerVals lang
          else cellAt g' q = cellAt g q)"
  proof (intro allI impI)
    fix q assume q: "inGrid n q"
    have q0: "0 \<le> snd q" using q by (simp add: inGrid_def)
    have i1: "if cellAt g q = Null \<and> fst q = int r \<and> int 0 \<le> snd q
          then cellAt g1 q \<in> fillerVals lang
          else cellAt g1 q = cellAt g q"
      using f(3) q by blast
    have i2: "if cellAt g1 q = Null \<and> int (Suc r) \<le> fst q
          then cellAt g' q \<in> fillerVals lang
          else cellAt g' q = cellAt g1 q"
      using ih(3) q by blast
    show "if cellAt g q = Null \<and> int r \<le> fst q
          then cellAt g' q \<in> fillerVals lang
          else cellAt g' q = cellAt g q"
    proof (cases "cellAt g q = Null")
      case False
      then have "cellAt g1 q = cellAt g q" using i1 by auto
      then show ?thesis using False i2 by auto
    next
      case True
      show ?thesis
      proof (cases "fst q = int r")
        case r: True
        then have v: "cellAt g1 q \<in> fillerVals lang"
          using i1 q0 True by auto
        then have "cellAt g1 q \<noteq> Null" by (rule fillerVals_not_Null)
        then have "cellAt g' q = cellAt g1 q" using i2 by auto
        then show ?thesis using v True r by auto
      next
        case nr: False
        then have e: "cellAt g1 q = Null" using i1 True by auto
        have "(int r \<le> fst q) = (int (Suc r) \<le> fst q)" using nr by auto
        then show ?thesis using i2 e True by auto
      qed
    qed
  qed
  show ?case
    by (rule exI [of _ g'], rule exI [of _ rnd'], intro conjI, rule run, rule ih(2), rule main)
qed


lemma covered_Nil: "\<forall>q. inGrid n q \<longrightarrow> cellAt g q = Null \<Longrightarrow> covered n g []"
  by (simp add: covered_def)

lemma generateGrid_ok:
  "\<exists>r pl. generateGrid lc words n lang rnd = Inr r \<and> square n (g_grid r) \<and>
     (\<forall>p \<in> set (placements r). placedIn n (g_grid r) p) \<and>
     (\<forall>q. inGrid n q \<longrightarrow>
        cellAt (g_grid r) q \<in> fillerVals lang \<or>
        (\<exists>p \<in> set (placements r). \<exists>j < length (p_word p).
            q = pos (p_row p) (p_col p) (p_dr p) (p_dc p) j \<and>
            cellAt (g_grid r) q = Ch (p_word p ! j))) \<and>
     mset words = mset pl + mset (skipped r) \<and> map p_word (placements r) = map lc pl \<and>
     (\<forall>p \<in> set (placements r). length (p_word p) \<le> maxLength n \<and> length (p_word p) \<le> n)"
proof -
  let ?g0 = "createEmptyGrid n"
  have sq0: "square n ?g0" by (rule square_createEmptyGrid)
  have pl0: "\<forall>p \<in> set []. placedIn n ?g0 p" by simp
  have cov0: "covered n ?g0 []"
    by (rule covered_Nil) (simp add: cellAt_createEmptyGrid)
  from wordLoop_ok [OF sq0 pl0 cov0, of lc "sortWords words" "[]" rnd]
  obtain g1 ps sk rnd1 pl where
    w: "wordLoop lc n (sortWords words) ?g0 [] [] rnd = Inr (g1, ps, sk, rnd1)"
    "square n g1" "\<forall>p \<in> set ps. placedIn n g1 p" "covered n g1 ps"
    "mset (sortWords words) = mset pl + mset sk" "map p_word ps = map lc pl"
    "\<forall>p \<in> set ps. length (p_word p) \<le> maxLength n \<and> length (p_word p) \<le> n"
    by auto
  from fillRows_ok [OF w(2), of lang 0 rnd1] obtain g2 rnd2 where
    f: "fillRows g1 lang n 0 rnd1 = Inr (g2, rnd2)" "square n g2"
    "\<forall>q. inGrid n q \<longrightarrow>
         (if cellAt g1 q = Null \<and> int 0 \<le> fst q
          then cellAt g2 q \<in> fillerVals lang
          else cellAt g2 q = cellAt g1 q)"
    by blast
  let ?r = "\<lparr>g_grid = g2, placements = ps, skipped = sk\<rparr>"
  have run: "generateGrid lc words n lang rnd = Inr ?r"
    using w(1) f(1) by (simp add: generateGrid_def Let_def)
  have ex: "extends n g1 g2"
    unfolding extends_def
  proof (intro allI impI)
    fix q assume q: "inGrid n q" and nn: "cellAt g1 q \<noteq> Null"
    have "if cellAt g1 q = Null \<and> int 0 \<le> fst q
          then cellAt g2 q \<in> fillerVals lang
          else cellAt g2 q = cellAt g1 q"
      using f(3) q by blast
    then show "cellAt g2 q = cellAt g1 q" using nn by simp
  qed
  have pl2: "\<forall>p \<in> set ps. placedIn n g2 p"
    using w(3) ex placedIn_extends by blast
  have cells: "\<forall>q. inGrid n q \<longrightarrow>
        cellAt g2 q \<in> fillerVals lang \<or>
        (\<exists>p \<in> set ps. \<exists>j < length (p_word p).
            q = pos (p_row p) (p_col p) (p_dr p) (p_dc p) j \<and> cellAt g2 q = Ch (p_word p ! j))"
  proof (intro allI impI)
    fix q assume q: "inGrid n q"
    have i: "if cellAt g1 q = Null \<and> int 0 \<le> fst q
          then cellAt g2 q \<in> fillerVals lang
          else cellAt g2 q = cellAt g1 q"
      using f(3) q by blast
    have q0: "int 0 \<le> fst q" using q by (simp add: inGrid_def)
    show "cellAt g2 q \<in> fillerVals lang \<or>
        (\<exists>p \<in> set ps. \<exists>j < length (p_word p).
            q = pos (p_row p) (p_col p) (p_dr p) (p_dc p) j \<and> cellAt g2 q = Ch (p_word p ! j))"
    proof (cases "cellAt g1 q = Null")
      case True
      then show ?thesis using i q0 by auto
    next
      case False
      then have e: "cellAt g2 q = cellAt g1 q" using i by simp
      from False w(4) q obtain p j where
        "p \<in> set ps" "j < length (p_word p)"
        "q = pos (p_row p) (p_col p) (p_dr p) (p_dc p) j" "cellAt g1 q = Ch (p_word p ! j)"
        unfolding covered_def by blast
      then show ?thesis using e by auto
    qed
  qed
  have m: "mset words = mset pl + mset sk" using w(5) by (simp add: sortWords_def)
  have g: "g_grid ?r = g2" "placements ?r = ps" "skipped ?r = sk" by simp_all
  show ?thesis
    apply (rule exI [of _ ?r], rule exI [of _ pl])
    unfolding g
    apply (intro conjI)
          apply (rule run)
         apply (rule f(2))
        apply (rule pl2)
       apply (rule cells)
      apply (rule m)
     apply (rule w(6))
    apply (rule w(7))
    done
qed

lemma sqrt2_times: "sqrt 2 * real n = sqrt (real (2 * n * n))"
proof -
  have "sqrt (real (2 * n * n)) = sqrt (2 * (real n * real n))" by (simp add: mult.assoc)
  also have "\<dots> = sqrt 2 * sqrt (real n * real n)" by (rule real_sqrt_mult)
  also have "sqrt (real n * real n) = real n" by simp
  finally show ?thesis by simp
qed

lemma maxLength_eq:
  assumes "k * k \<le> 2 * n * n" and "2 * n * n < Suc k * Suc k"
  shows "maxLength n = k"
proof -
  have "real (k * k) \<le> real (2 * n * n)" using assms(1) by (rule of_nat_mono)
  then have "(real k)\<^sup>2 \<le> real (2 * n * n)" by (simp only: power2_eq_square of_nat_mult)
  then have lo: "real k \<le> sqrt (real (2 * n * n))" by (rule real_le_rsqrt)
  have "real (2 * n * n) < real (Suc k * Suc k)" using assms(2) by (simp only: of_nat_less_iff)
  then have "real (2 * n * n) < (real (Suc k))\<^sup>2" by (simp only: power2_eq_square of_nat_mult)
  moreover have "0 \<le> real (Suc k)" by simp
  ultimately have hi: "sqrt (real (2 * n * n)) < real (Suc k)" by (intro real_less_lsqrt)
  have "\<lfloor>sqrt (real (2 * n * n))\<rfloor> = int k"
  proof (rule floor_unique)
    show "of_int (int k) \<le> sqrt (real (2 * n * n))" using lo by simp
    show "sqrt (real (2 * n * n)) < of_int (int k) + 1" using hi by simp
  qed
  then show ?thesis by (simp only: maxLength_def sqrt2_times nat_int)
qed

lemma maxLength_3: "maxLength 3 = 4"
  by (rule maxLength_eq) simp_all

lemma maxLength_ge: "n \<le> maxLength n"
proof -
  have "1 \<le> sqrt 2" by simp
  then have "real n * 1 \<le> real n * sqrt 2" by (intro mult_left_mono) simp_all
  then have "of_int (int n) \<le> sqrt 2 * real n" by (simp add: mult.commute)
  then have "int n \<le> \<lfloor>sqrt 2 * real n\<rfloor>" by (simp only: le_floor_iff)
  then show ?thesis by (simp add: maxLength_def)
qed

lemma shuffleLoop_numeral:
  "shuffleLoop (numeral k) a rnd =
     (let i = numeral k; (j, rnd') = randomInt (i + 1) rnd
      in shuffleLoop (pred_numeral k) (a[i := a ! j, j := a ! i]) rnd')"
  by (simp add: numeral_eq_Suc)

lemma shuffleLoop_Suc0:
  "shuffleLoop (Suc 0) a rnd =
     (let (j, rnd') = randomInt 2 rnd in shuffleLoop 0 (a[Suc 0 := a ! j, j := a ! Suc 0]) rnd')"
  by (simp add: Let_def numeral_2_eq_2 split: prod.splits)

lemma list_update_numeral:
  "(x # xs)[numeral k := y] = x # xs[pred_numeral k := y]"
  by (simp add: numeral_eq_Suc)

lemma createEmptyGrid_3:
  "createEmptyGrid 3 = [[Null, Null, Null], [Null, Null, Null], [Null, Null, Null]]"
  by (simp add: createEmptyGrid_def numeral_3_eq_3)

lemmas eval_generator =
  generateGrid_def createEmptyGrid_3 sortWords_def wordLoop.simps tryPlaceWord_def
  shuffle_def shuffleLoop_numeral shuffleLoop_Suc0 shuffleLoop.simps(1) tryPlaceLoop.simps
  canPlace_def canPlaceLoop.simps
  canPlaceAt_def gridAt_def gridSet_def placeWord_def placeWordLoop.simps cellsOf_def
  fillRows.simps fillRow.simps randomChar_def randomInt_def alphabetOf_def ALPHABETS_def objectPrototypeKeys_def
  DIRECTIONS_def DIRECTION_NAMES_def asciiLower_def asciiLowerChar_def str_def Let_def
  maxLength_3 list_update_numeral

lemmas eval_cong =
  let_weak_cong sum.case_cong_weak prod.case_cong_weak option.case_cong_weak

lemma gen_cat:
  "generateGrid asciiLower [[99, 97, 116]] 3 ''en'' (\<lambda>i. 0) =
     Inr \<lparr>g_grid = [[Ch 99, Ch 97, Ch 97], [Ch 97, Ch 97, Ch 97], [Ch 116, Ch 97, Ch 97]],
          placements =
            [\<lparr>p_word = [99, 97, 116], p_row = 0, p_col = 0, p_direction = ''down'',
              p_dr = 1, p_dc = 0,
              p_cells = [\<lparr>row = 0, col = 0\<rparr>, \<lparr>row = 1, col = 0\<rparr>, \<lparr>row = 2, col = 0\<rparr>]\<rparr>],
          skipped = []\<rparr>"
  by (simp add: eval_generator cong: eval_cong)

lemma placedIn_explicit:
  assumes "placedIn n g p"
  shows "((p_dr p, p_dc p), p_direction p) \<in> set (zip DIRECTIONS DIRECTION_NAMES) \<and>
     length (p_cells p) = length (p_word p) \<and>
     (\<forall>i < length (p_word p).
        p_cells p ! i = \<lparr>row = p_row p + int i * p_dr p, col = p_col p + int i * p_dc p\<rparr> \<and>
        0 \<le> row (p_cells p ! i) \<and> row (p_cells p ! i) < int n \<and>
        0 \<le> col (p_cells p ! i) \<and> col (p_cells p ! i) < int n \<and>
        g ! nat (row (p_cells p ! i)) ! nat (col (p_cells p ! i)) = Ch (p_word p ! i))"
proof -
  have c: "p_cells p = cellsOf (p_word p) (p_row p) (p_col p) (p_dr p) (p_dc p)"
    using assms by (simp add: placedIn_def)
  have n: "\<forall>i < length (p_word p).
      p_cells p ! i = \<lparr>row = p_row p + int i * p_dr p, col = p_col p + int i * p_dc p\<rparr>"
    by (simp add: c cellsOf_def)
  have b: "\<forall>i < length (p_word p).
      inGrid n (pos (p_row p) (p_col p) (p_dr p) (p_dc p) i) \<and>
      cellAt g (pos (p_row p) (p_col p) (p_dr p) (p_dc p) i) = Ch (p_word p ! i)"
    using assms by (simp add: placedIn_def)
  have "\<forall>i < length (p_word p).
        p_cells p ! i = \<lparr>row = p_row p + int i * p_dr p, col = p_col p + int i * p_dc p\<rparr> \<and>
        0 \<le> row (p_cells p ! i) \<and> row (p_cells p ! i) < int n \<and>
        0 \<le> col (p_cells p ! i) \<and> col (p_cells p ! i) < int n \<and>
        g ! nat (row (p_cells p ! i)) ! nat (col (p_cells p ! i)) = Ch (p_word p ! i)"
  proof (intro allI impI)
    fix i assume i: "i < length (p_word p)"
    have e: "p_cells p ! i = \<lparr>row = p_row p + int i * p_dr p, col = p_col p + int i * p_dc p\<rparr>"
      using n i by blast
    have "inGrid n (pos (p_row p) (p_col p) (p_dr p) (p_dc p) i)"
         "cellAt g (pos (p_row p) (p_col p) (p_dr p) (p_dc p) i) = Ch (p_word p ! i)"
      using b i by blast+
    then show "p_cells p ! i = \<lparr>row = p_row p + int i * p_dr p, col = p_col p + int i * p_dc p\<rparr> \<and>
        0 \<le> row (p_cells p ! i) \<and> row (p_cells p ! i) < int n \<and>
        0 \<le> col (p_cells p ! i) \<and> col (p_cells p ! i) < int n \<and>
        g ! nat (row (p_cells p ! i)) ! nat (col (p_cells p ! i)) = Ch (p_word p ! i)"
      unfolding e by (simp add: inGrid_def pos_def cellAt_def)
  qed
  moreover have "length (p_cells p) = length (p_word p)" by (simp add: c cellsOf_def)
  moreover have "((p_dr p, p_dc p), p_direction p) \<in> set (zip DIRECTIONS DIRECTION_NAMES)"
    using assms by (simp add: placedIn_def)
  ultimately show ?thesis by blast
qed

lemma placed_word_source:
  assumes "mset words = mset pl + mset sk" and "map p_word ps = map lc pl" and "p \<in> set ps"
  shows "\<exists>w \<in> set words. p_word p = lc w"
proof -
  have "p_word p \<in> set (map lc pl)" using assms(2,3) by (metis image_eqI list.set_map)
  then obtain w where w: "w \<in> set pl" "p_word p = lc w" by auto
  have "set pl \<subseteq> set words" using assms(1) by (metis mset_subset_eq_add_left set_mset_mono set_mset_mset)
  with w show ?thesis by blast
qed

text \<open>
  C1. \<open>generateGrid\<close> returns a result, and every placement in it records the lowercased
  form of an input word, a direction of the table with its name, and exactly
  \<open>word.length\<close> cells: cell \<open>i\<close> is the start cell moved \<open>i\<close> steps along the direction,
  lies inside the grid, and the returned grid holds character \<open>i\<close> of the word there.
\<close>

theorem generateGrid_placements:
  "\<exists>r. generateGrid lc words n lang rnd = Inr r \<and>
     (\<forall>p \<in> set (placements r).
        (\<exists>w \<in> set words. p_word p = lc w) \<and>
        ((p_dr p, p_dc p), p_direction p) \<in> set (zip DIRECTIONS DIRECTION_NAMES) \<and>
        length (p_cells p) = length (p_word p) \<and>
        (\<forall>i < length (p_word p).
           p_cells p ! i = \<lparr>row = p_row p + int i * p_dr p, col = p_col p + int i * p_dc p\<rparr> \<and>
           0 \<le> row (p_cells p ! i) \<and> row (p_cells p ! i) < int n \<and>
           0 \<le> col (p_cells p ! i) \<and> col (p_cells p ! i) < int n \<and>
           g_grid r ! nat (row (p_cells p ! i)) ! nat (col (p_cells p ! i)) = Ch (p_word p ! i)))"
proof -
  from generateGrid_ok [of lc words n lang rnd] obtain r pl where
    r: "generateGrid lc words n lang rnd = Inr r"
    "\<forall>p \<in> set (placements r). placedIn n (g_grid r) p"
    "mset words = mset pl + mset (skipped r)" "map p_word (placements r) = map lc pl"
    by blast
  have "\<forall>p \<in> set (placements r).
        (\<exists>w \<in> set words. p_word p = lc w) \<and>
        ((p_dr p, p_dc p), p_direction p) \<in> set (zip DIRECTIONS DIRECTION_NAMES) \<and>
        length (p_cells p) = length (p_word p) \<and>
        (\<forall>i < length (p_word p).
           p_cells p ! i = \<lparr>row = p_row p + int i * p_dr p, col = p_col p + int i * p_dc p\<rparr> \<and>
           0 \<le> row (p_cells p ! i) \<and> row (p_cells p ! i) < int n \<and>
           0 \<le> col (p_cells p ! i) \<and> col (p_cells p ! i) < int n \<and>
           g_grid r ! nat (row (p_cells p ! i)) ! nat (col (p_cells p ! i)) = Ch (p_word p ! i))"
  proof
    fix p assume p: "p \<in> set (placements r)"
    then have "placedIn n (g_grid r) p" using r(2) by blast
    from placedIn_explicit [OF this] placed_word_source [OF r(3,4) p]
    show "(\<exists>w \<in> set words. p_word p = lc w) \<and>
        ((p_dr p, p_dc p), p_direction p) \<in> set (zip DIRECTIONS DIRECTION_NAMES) \<and>
        length (p_cells p) = length (p_word p) \<and>
        (\<forall>i < length (p_word p).
           p_cells p ! i = \<lparr>row = p_row p + int i * p_dr p, col = p_col p + int i * p_dc p\<rparr> \<and>
           0 \<le> row (p_cells p ! i) \<and> row (p_cells p ! i) < int n \<and>
           0 \<le> col (p_cells p ! i) \<and> col (p_cells p ! i) < int n \<and>
           g_grid r ! nat (row (p_cells p ! i)) ! nat (col (p_cells p ! i)) = Ch (p_word p ! i))"
      by (rule conjI [rotated])
  qed
  with r(1) show ?thesis by blast
qed



text \<open>The word "cat" in a grid of side 3 when every random draw is 0.\<close>

theorem generateGrid_placements_witness:
  "generateGrid asciiLower [str ''cat''] 3 ''en'' (\<lambda>i. 0) =
     Inr \<lparr>g_grid = [[Ch 99, Ch 97, Ch 97], [Ch 97, Ch 97, Ch 97], [Ch 116, Ch 97, Ch 97]],
          placements =
            [\<lparr>p_word = str ''cat'', p_row = 0, p_col = 0, p_direction = ''down'',
              p_dr = 1, p_dc = 0,
              p_cells = [\<lparr>row = 0, col = 0\<rparr>, \<lparr>row = 1, col = 0\<rparr>, \<lparr>row = 2, col = 0\<rparr>]\<rparr>],
          skipped = []\<rparr>"
  using generateGrid_placements [of asciiLower "[str ''cat'']" 3 "''en''" "\<lambda>i. 0"]
  by (simp add: gen_cat str_def)

lemma createEmptyGrid_1: "createEmptyGrid (Suc 0) = [[Null]]"
  by (simp add: createEmptyGrid_def)

lemma createEmptyGrid_2: "createEmptyGrid 2 = [[Null, Null], [Null, Null]]"
  by (simp add: createEmptyGrid_def numeral_2_eq_2)

text \<open>
  C3 fails on the code. The claim is that every cell of the returned grid holds one
  character, a letter of a placed word or a filler character of the language's alphabet, and
  that no cell stays unset. \<open>randomChar\<close> is documented to fall back to English for an
  unknown language code, but for a code that names an inherited property the lookup is not
  nullish, there is no fallback, and the filler is \<open>undefined\<close>:
  \<open>generateGrid([], 1, "constructor")\<close> returns the grid \<open>[[undefined]]\<close>.
\<close>

theorem generateGrid_inherited_lang:
  "generateGrid asciiLower [] 1 ''constructor'' (\<lambda>i. 0) =
     Inr \<lparr>g_grid = [[Undefined]], placements = [], skipped = []\<rparr>"
  by (simp add: eval_generator createEmptyGrid_1 cong: eval_cong)

lemma str_abcdefghij: "str ''abcdefghij'' = [97, 98, 99, 100, 101, 102, 103, 104, 105, 106]"
  by (simp add: str_def)

lemma length_asciiLower: "length (asciiLower s) = length s"
  by (simp add: asciiLower_def)

lemma fillerVals_en: "fillerVals ''en'' = Ch ` set (str ''abcdefghijklmnopqrstuvwxyz'')"
  by (simp add: fillerVals_def alphabetOf_def ALPHABETS_def)

lemma skipped_count:
  assumes m: "mset words = mset pl + mset sk" and mp: "map p_word ps = map lc pl"
    and b: "\<forall>p \<in> set ps. length (p_word p) \<le> k"
    and l: "k < length (lc w)"
  shows "count (mset sk) w = count (mset words) w"
proof -
  have "w \<notin> set pl"
  proof
    assume "w \<in> set pl"
    then have "lc w \<in> lc ` set pl" by blast
    then have "lc w \<in> set (map p_word ps)" by (simp add: mp)
    then obtain p where "p \<in> set ps" "p_word p = lc w" by auto
    then have "length (lc w) \<le> k" using b by auto
    then show False using l by simp
  qed
  then have "count (mset pl) w = 0" by (simp add: count_mset_0_iff)
  then show ?thesis by (simp add: m)
qed

lemma single_split:
  assumes "mset [w] = mset pl + mset sk" and "w \<in> set sk"
  shows "sk = [w] \<and> pl = []"
proof -
  have "size (mset [w]) = size (mset pl + mset sk)" using assms(1) by (rule arg_cong)
  then have l: "length pl + length sk = 1" by simp
  obtain x xs where sk: "sk = x # xs" using assms(2) by (cases sk) auto
  then have e: "xs = []" "pl = []" using l by simp_all
  with sk assms(2) show ?thesis by simp
qed

text \<open>
  C6. Every input word longer than \<open>floor(sqrt(2) * gridSize)\<close> is put in \<open>skipped\<close>, once
  for each of its occurrences in the input, no placement holds it or its lowercase form, and
  no error is raised. \<open>generateGrid(["abcdefghij"], 3, "en")\<close> returns no placement, the
  skipped list \<open>["abcdefghij"]\<close> and a grid of English filler letters, for every random
  sequence. The lowercasing is assumed not to shorten an input word, as the runtime's does not.
\<close>

theorem generateGrid_too_long:
  assumes "\<forall>w \<in> set words. length w \<le> length (lc w)"
  shows "(\<exists>r. generateGrid lc words n lang rnd = Inr r \<and>
       (\<forall>w \<in> set words. maxLength n < length w \<longrightarrow>
          count (mset (skipped r)) w = count (mset words) w \<and>
          (\<forall>p \<in> set (placements r). p_word p \<noteq> w \<and> p_word p \<noteq> lc w)))
    \<and> (\<exists>r. generateGrid asciiLower [str ''abcdefghij''] 3 ''en'' rnd = Inr r \<and>
          placements r = [] \<and> skipped r = [str ''abcdefghij''] \<and>
          (\<forall>i < 3. \<forall>j < 3. \<exists>ch \<in> set (str ''abcdefghijklmnopqrstuvwxyz'').
               g_grid r ! i ! j = Ch ch))"
proof
  from generateGrid_ok [of lc words n lang rnd] obtain r pl where
    r: "generateGrid lc words n lang rnd = Inr r"
    "mset words = mset pl + mset (skipped r)" "map p_word (placements r) = map lc pl"
    "\<forall>p \<in> set (placements r). length (p_word p) \<le> maxLength n \<and> length (p_word p) \<le> n"
    by blast
  have b: "\<forall>p \<in> set (placements r). length (p_word p) \<le> maxLength n" using r(4) by blast
  have "\<forall>w \<in> set words. maxLength n < length w \<longrightarrow>
          count (mset (skipped r)) w = count (mset words) w \<and>
          (\<forall>p \<in> set (placements r). p_word p \<noteq> w \<and> p_word p \<noteq> lc w)"
  proof (intro ballI impI)
    fix w assume w: "w \<in> set words" and l: "maxLength n < length w"
    have "length w \<le> length (lc w)" using assms w by blast
    then have ll: "maxLength n < length (lc w)" using l by simp
    have c: "count (mset (skipped r)) w = count (mset words) w"
      using r(2,3) b ll by (rule skipped_count)
    have "\<forall>p \<in> set (placements r). p_word p \<noteq> w \<and> p_word p \<noteq> lc w"
    proof
      fix p assume "p \<in> set (placements r)"
      then have "length (p_word p) \<le> maxLength n" using b by blast
      then show "p_word p \<noteq> w \<and> p_word p \<noteq> lc w" using l ll by auto
    qed
    with c show "count (mset (skipped r)) w = count (mset words) w \<and>
          (\<forall>p \<in> set (placements r). p_word p \<noteq> w \<and> p_word p \<noteq> lc w)" by blast
  qed
  with r(1) show "\<exists>r. generateGrid lc words n lang rnd = Inr r \<and>
       (\<forall>w \<in> set words. maxLength n < length w \<longrightarrow>
          count (mset (skipped r)) w = count (mset words) w \<and>
          (\<forall>p \<in> set (placements r). p_word p \<noteq> w \<and> p_word p \<noteq> lc w))" by blast
next
  let ?w = "str ''abcdefghij''"
  from generateGrid_ok [of asciiLower "[?w]" 3 "''en''" rnd] obtain r pl where
    r: "generateGrid asciiLower [?w] 3 ''en'' rnd = Inr r"
    "\<forall>q. inGrid 3 q \<longrightarrow>
        cellAt (g_grid r) q \<in> fillerVals ''en'' \<or>
        (\<exists>p \<in> set (placements r). \<exists>j < length (p_word p).
            q = pos (p_row p) (p_col p) (p_dr p) (p_dc p) j \<and>
            cellAt (g_grid r) q = Ch (p_word p ! j))"
    "mset [?w] = mset pl + mset (skipped r)" "map p_word (placements r) = map asciiLower pl"
    "\<forall>p \<in> set (placements r). length (p_word p) \<le> maxLength 3 \<and> length (p_word p) \<le> 3"
    by blast
  have b: "\<forall>p \<in> set (placements r). length (p_word p) \<le> 4"
    using r(5) by (simp add: maxLength_3)
  have "4 < length (asciiLower ?w)" by (simp add: length_asciiLower str_abcdefghij)
  with r(3,4) b have "count (mset (skipped r)) ?w = count (mset [?w]) ?w"
    by (rule skipped_count)
  then have "count (mset (skipped r)) ?w \<noteq> 0" by simp
  then have w_in: "?w \<in> set (skipped r)" by (simp only: count_mset_0_iff not_not)
  note ss = single_split [OF r(3) w_in]
  have sk: "skipped r = [?w]" using ss by (rule conjunct1)
  have pl: "pl = []" using ss by (rule conjunct2)
  have ps: "placements r = []" using r(4) pl by simp
  have "\<forall>i < 3. \<forall>j < 3. \<exists>ch \<in> set (str ''abcdefghijklmnopqrstuvwxyz''). g_grid r ! i ! j = Ch ch"
  proof (intro allI impI)
    fix i j :: nat assume i: "i < 3" and j: "j < 3"
    then have "inGrid 3 (int i, int j)" by (simp add: inGrid_def)
    then have "cellAt (g_grid r) (int i, int j) \<in> fillerVals ''en'' \<or>
        (\<exists>p \<in> set (placements r). \<exists>k < length (p_word p).
            (int i, int j) = pos (p_row p) (p_col p) (p_dr p) (p_dc p) k \<and>
            cellAt (g_grid r) (int i, int j) = Ch (p_word p ! k))"
      using r(2) by blast
    then have "cellAt (g_grid r) (int i, int j) \<in> fillerVals ''en''"
      unfolding ps by simp
    then have "g_grid r ! i ! j \<in> Ch ` set (str ''abcdefghijklmnopqrstuvwxyz'')"
      unfolding fillerVals_en by (simp only: cellAt_def fst_conv snd_conv nat_int)
    then show "\<exists>ch \<in> set (str ''abcdefghijklmnopqrstuvwxyz''). g_grid r ! i ! j = Ch ch"
      by blast
  qed
  with r(1) ps sk show "\<exists>r. generateGrid asciiLower [?w] 3 ''en'' rnd = Inr r \<and>
          placements r = [] \<and> skipped r = [?w] \<and>
          (\<forall>i < 3. \<forall>j < 3. \<exists>ch \<in> set (str ''abcdefghijklmnopqrstuvwxyz'').
               g_grid r ! i ! j = Ch ch)" by blast
qed

text \<open>"abcdefghij" is skipped and "cat" is placed in a grid of side 3.\<close>

theorem generateGrid_too_long_witness:
  "generateGrid asciiLower [str ''cat'', str ''abcdefghij''] 3 ''en'' (\<lambda>i. 0) =
     Inr \<lparr>g_grid = [[Ch 99, Ch 97, Ch 97], [Ch 97, Ch 97, Ch 97], [Ch 116, Ch 97, Ch 97]],
          placements =
            [\<lparr>p_word = str ''cat'', p_row = 0, p_col = 0, p_direction = ''down'',
              p_dr = 1, p_dc = 0,
              p_cells = [\<lparr>row = 0, col = 0\<rparr>, \<lparr>row = 1, col = 0\<rparr>, \<lparr>row = 2, col = 0\<rparr>]\<rparr>],
          skipped = [str ''abcdefghij'']\<rparr>"
  using generateGrid_too_long [where words = "[str ''cat'', str ''abcdefghij'']"
      and lc = asciiLower and n = 3 and lang = "''en''" and rnd = "\<lambda>i. 0"]
  by (simp add: eval_generator cong: eval_cong)

lemma square_expand: "square n g \<longleftrightarrow> length g = n \<and> (\<forall>line \<in> set g. length line = n)"
  by (simp add: square_def)

lemma canPlace_too_long:
  assumes "length g = n" and "\<forall>line \<in> set g. length line = n" and "n < length w"
    and "d \<in> set DIRECTIONS"
  shows "\<not> canPlace g w r0 c0 (fst d) (snd d)"
proof
  assume cp: "canPlace g w r0 c0 (fst d) (snd d)"
  have sq: "square n g" using assms(1,2) by (simp add: square_def)
  have "(fst d, snd d) \<in> set DIRECTIONS" using assms(4) by simp
  from canPlace_length [OF sq this cp] show False using assms(3) by simp
qed

lemma tryPlaceWord_too_long:
  assumes "length g = n" and "\<forall>line \<in> set g. length line = n" and "n < length w"
  shows "\<exists>rnd'. tryPlaceWord g w rnd = Inr (None, g, rnd')"
proof -
  have sq: "square n g" using assms(1,2) by (simp add: square_def)
  from tryPlaceWord_ok [OF sq, of w rnd] obtain popt g' rnd' where
    t: "tryPlaceWord g w rnd = Inr (popt, g', rnd')"
    "case popt of
         None \<Rightarrow> g' = g
       | Some p \<Rightarrow> p_word p = w \<and> placedIn n g' p \<and>
           canPlace g w (p_row p) (p_col p) (p_dr p) (p_dc p) \<and>
           (\<forall>q. inGrid n q \<longrightarrow> cellAt g' q \<noteq> cellAt g q \<longrightarrow>
               (\<exists>j < length w. q = pos (p_row p) (p_col p) (p_dr p) (p_dc p) j))"
    by blast
  show ?thesis
  proof (cases popt)
    case None
    then show ?thesis using t by simp
  next
    case (Some p)
    then have pl: "placedIn n g' p" and cp: "canPlace g w (p_row p) (p_col p) (p_dr p) (p_dc p)"
      using t(2) by simp_all
    have "(p_dr p, p_dc p) \<in> set DIRECTIONS"
      using pl zip_dirs_fst unfolding placedIn_def by blast
    from canPlace_length [OF sq this cp] show ?thesis using assms(3) by simp
  qed
qed

text \<open>
  C10. Every input word longer than \<open>gridSize\<close> is put in \<open>skipped\<close>, once for each of its
  occurrences, and every placed word has at most \<open>gridSize\<close> characters. For such a word
  \<open>canPlace\<close> is false at every start cell and direction of a square grid of that side, and
  \<open>tryPlaceWord\<close> returns \<open>null\<close> and leaves the grid as it was. The lowercasing is assumed
  not to shorten an input word.
\<close>

theorem generateGrid_longer_than_side:
  assumes "\<forall>w \<in> set words. length w \<le> length (lc w)"
  shows "(\<exists>r. generateGrid lc words n lang rnd = Inr r \<and>
       (\<forall>w \<in> set words. n < length w \<longrightarrow> count (mset (skipped r)) w = count (mset words) w) \<and>
       (\<forall>p \<in> set (placements r). length (p_word p) \<le> n))
    \<and> (\<forall>g w r0 c0 d. length g = n \<and> (\<forall>line \<in> set g. length line = n) \<and> n < length w \<and>
           d \<in> set DIRECTIONS \<longrightarrow> \<not> canPlace g w r0 c0 (fst d) (snd d))
    \<and> (\<forall>g w rnd0. length g = n \<and> (\<forall>line \<in> set g. length line = n) \<and> n < length w \<longrightarrow>
           (\<exists>rnd'. tryPlaceWord g w rnd0 = Inr (None, g, rnd')))"
proof (intro conjI)
  from generateGrid_ok [of lc words n lang rnd] obtain r pl where
    r: "generateGrid lc words n lang rnd = Inr r"
    "mset words = mset pl + mset (skipped r)" "map p_word (placements r) = map lc pl"
    "\<forall>p \<in> set (placements r). length (p_word p) \<le> maxLength n \<and> length (p_word p) \<le> n"
    by blast
  have b: "\<forall>p \<in> set (placements r). length (p_word p) \<le> n" using r(4) by blast
  have "\<forall>w \<in> set words. n < length w \<longrightarrow> count (mset (skipped r)) w = count (mset words) w"
  proof (intro ballI impI)
    fix w assume w: "w \<in> set words" and l: "n < length w"
    have "length w \<le> length (lc w)" using assms w by blast
    then have ll: "n < length (lc w)" using l by simp
    show "count (mset (skipped r)) w = count (mset words) w"
      using r(2,3) b ll by (rule skipped_count)
  qed
  with r(1) b show "\<exists>r. generateGrid lc words n lang rnd = Inr r \<and>
       (\<forall>w \<in> set words. n < length w \<longrightarrow> count (mset (skipped r)) w = count (mset words) w) \<and>
       (\<forall>p \<in> set (placements r). length (p_word p) \<le> n)" by blast
next
  show "\<forall>g w r0 c0 d. length g = n \<and> (\<forall>line \<in> set g. length line = n) \<and> n < length w \<and>
           d \<in> set DIRECTIONS \<longrightarrow> \<not> canPlace g w r0 c0 (fst d) (snd d)"
    using canPlace_too_long by blast
next
  show "\<forall>g w rnd0. length g = n \<and> (\<forall>line \<in> set g. length line = n) \<and> n < length w \<longrightarrow>
           (\<exists>rnd'. tryPlaceWord g w rnd0 = Inr (None, g, rnd'))"
    using tryPlaceWord_too_long by blast
qed

lemma str_abcd: "str ''abcd'' = [97, 98, 99, 100]"
  by (simp add: str_def)

text \<open>
  "abcd" is not longer than \<open>floor(sqrt(2) * 3) = 4\<close>, so it passes the diagonal check, and
  it is skipped in a grid of side 3.
\<close>

theorem generateGrid_longer_than_side_witness:
  "length (str ''abcd'') \<le> maxLength 3 \<and>
   (\<exists>r. generateGrid asciiLower [str ''abcd''] 3 ''en'' (\<lambda>i. 0) = Inr r \<and>
        count (mset (skipped r)) (str ''abcd'') = 1)"
proof -
  from generateGrid_longer_than_side [where words = "[str ''abcd'']" and lc = asciiLower
      and n = 3 and lang = "''en''" and rnd = "\<lambda>i. 0"]
  obtain r where r: "generateGrid asciiLower [str ''abcd''] 3 ''en'' (\<lambda>i. 0) = Inr r"
    "count (mset (skipped r)) (str ''abcd'') = 1"
    by (auto simp: length_asciiLower str_abcd)
  then show ?thesis by (auto simp: maxLength_3 str_abcd)
qed


















subsection \<open>What the calls leave untouched\<close>

lemma fetch_append_old: "fetch h a = Some x \<Longrightarrow> fetch (h @ e) a = Some x"
  by (auto simp: fetch_def nth_append split: if_splits)

lemma fetch_append_new: "k < length e \<Longrightarrow> fetch (h @ e) (length h + k) = Some (e ! k)"
  by (simp add: fetch_def nth_append)

lemma rowOf_append_old: "rowOf h a = Some x \<Longrightarrow> rowOf (h @ e) a = Some x"
  by (auto simp: rowOf_def fetch_def nth_append split: if_splits option.splits jsarray.splits)

lemma gridOf_append: "gridOf h ga = Some g \<Longrightarrow> gridOf (h @ e) ga = Some g"
proof -
  assume a: "gridOf h ga = Some g"
  then obtain rs where rs: "fetch h ga = Some (Rows rs)"
    by (auto simp: gridOf_def split: option.splits jsarray.splits)
  then have rs': "fetch (h @ e) ga = Some (Rows rs)" by (rule fetch_append_old)
  have all: "\<forall>r \<in> set rs. rowOf h r \<noteq> None" and g: "g = map (\<lambda>r. the (rowOf h r)) rs"
    using a rs by (auto simp: gridOf_def list_all_iff split: if_splits)
  have same: "\<forall>r \<in> set rs. rowOf (h @ e) r = rowOf h r"
    using all rowOf_append_old by fastforce
  then have "list_all (\<lambda>r. rowOf (h @ e) r \<noteq> None) rs" using all by (simp add: list_all_iff)
  moreover have "map (\<lambda>r. the (rowOf (h @ e) r)) rs = g" using same g by simp
  ultimately show ?thesis using rs' by (simp add: gridOf_def)
qed

lemma cellsAt_new: "k < length e \<Longrightarrow> e ! k = Cells cs \<Longrightarrow> cellsAt (h @ e) (length h + k) = cs"
  by (simp add: cellsAt_def fetch_append_new)

lemma concat_rev_singletons: "concat (rev (map (\<lambda>c. [c]) s)) = rev s"
  by (induction s) simp_all

lemma normalizeSelectionS_eq:
  assumes "fetch h ca = Some (Cells cells)"
  shows "normalizeSelectionS h ca =
     Inr (if cells = [] then (None, h)
          else if straightLine (dedup cells) then (Some (length h), h @ [Cells (dedup cells)])
          else (None, h @ [Cells (dedup cells)]))"
proof (cases "cells = []")
  case True
  then show ?thesis using assms by (simp add: normalizeSelectionS_def)
next
  case False
  have c: "cellsAt (h @ [Cells (dedup cells)]) (length h) = dedup cells"
    using cellsAt_new [of 0 "[Cells (dedup cells)]" "dedup cells" h] by simp
  have n: "normalizeSelection cells = (if straightLine (dedup cells) then Some (dedup cells) else None)"
    using False by (simp add: normalizeSelection_eq)
  have d: "(length (dedup cells) = 0 \<or> (length (dedup cells) \<noteq> 1 \<and> getLineDirection (dedup cells) = None))
      \<longleftrightarrow> \<not> straightLine (dedup cells)"
    using n False unfolding normalizeSelection_def Let_def
    by (auto split: if_splits)
  show ?thesis
    using assms False d
    by (auto simp: normalizeSelectionS_def alloc_def Let_def c)
qed

lemma finishS_deref:
  assumes "cellsAt h na = normalized" and "cellsAt h ma = matched"
  shows "finishS mw ma na h =
     Inr (r, h') \<Longrightarrow>
     h' = h \<and>
     deref h r =
       (case mw of
          None \<Rightarrow> \<lparr>valid = True, found = False, sr_word = None, sr_direction = None,
                     startCell = None, sr_cells = normalized\<rparr>
        | Some w \<Rightarrow>
            if w = [] then
              \<lparr>valid = True, found = False, sr_word = None, sr_direction = None,
               startCell = None, sr_cells = normalized\<rparr>
            else
              \<lparr>valid = True, found = True, sr_word = Some w,
               sr_direction =
                 (case getLineDirection matched of None \<Rightarrow> None | Some d \<Rightarrow> dirName d),
               startCell = firstCell matched, sr_cells = matched\<rparr>)"
  using assms by (auto simp: finishS_def deref_def split: option.splits if_splits)

lemma finishS_total: "\<exists>r. finishS mw ma na h = Inr (r, h)"
  by (auto simp: finishS_def split: option.splits)

lemma checkSelectionS_sound:
  assumes g: "gridOf h ga = Some g" and c: "fetch h ca = Some (Cells cells)"
    and t: "fetch h ta = Some (Strings tw)"
  shows "\<exists>res ext. checkSelectionS lc h ga ca ta = Inr (res, h @ ext) \<and>
      checkSelection lc g cells tw = Inr (deref (h @ ext) res)"
proof -
  let ?h0 = "h @ [Cells []]"
  have ea: "alloc h (Cells []) = (length h, ?h0)" by (simp add: alloc_def)
  have c0: "fetch ?h0 ca = Some (Cells cells)" using c by (rule fetch_append_old)
  note ns = normalizeSelectionS_eq [OF c0]
  let ?E = "\<lparr>s_valid = False, s_found = False, s_word = None, s_direction = None,
             s_startCell = None, s_cells = length h\<rparr>"
  have dE: "deref (h @ [Cells []] @ e) ?E = EMPTY" for e
    using cellsAt_new [of 0 "[Cells []] @ e" "[]" h] by (simp add: deref_def EMPTY_def)
  show ?thesis
  proof (cases "cells = []")
    case True
    have "checkSelectionS lc h ga ca ta = Inr (?E, h @ [Cells []])"
      using True by (simp add: checkSelectionS_def ea ns)
    moreover have "checkSelection lc g cells tw = Inr EMPTY"
      using True by (simp add: checkSelection_def normalizeSelection_eq)
    ultimately show ?thesis using dE [of "[]"] by (metis append_Nil2)
  next
    case ne: False
    let ?d = "dedup cells"
    let ?h1 = "h @ [Cells [], Cells ?d]"
    show ?thesis
    proof (cases "straightLine ?d")
      case False
      have "checkSelectionS lc h ga ca ta = Inr (?E, ?h1)"
        using ne False by (simp add: checkSelectionS_def ea ns)
      moreover have "checkSelection lc g cells tw = Inr EMPTY"
        using False by (simp add: checkSelection_def normalizeSelection_eq)
      ultimately show ?thesis using dE [of "[Cells ?d]"] by auto
    next
      case sl: True
      have nsel: "normalizeSelection cells = Some ?d"
        using ne sl by (simp add: normalizeSelection_eq)
      have nS: "normalizeSelectionS ?h0 ca = Inr (Some (Suc (length h)), ?h1)"
        using ne sl by (simp add: ns)
      have g1: "gridOf ?h1 ga = Some g" using g by (rule gridOf_append)
      have t1: "fetch ?h1 ta = Some (Strings tw)" using t by (rule fetch_append_old)
      have n1: "cellsAt ?h1 (Suc (length h)) = ?d"
        using cellsAt_new [of 1 "[Cells [], Cells ?d]" ?d h] by simp
      show ?thesis
      proof (cases "list_ex (outOfBounds (length g)) ?d")
        case True
        have "checkSelectionS lc h ga ca ta = Inr (?E, ?h1)"
          using True by (simp add: checkSelectionS_def ea nS g1 t1 n1)
        moreover have "checkSelection lc g cells tw = Inr EMPTY"
          using True by (simp add: checkSelection_def nsel)
        ultimately show ?thesis using dE [of "[Cells ?d]"] by auto
      next
        case nb: False
        then obtain vals where v: "readCells g ?d = Inr vals"
          using readCells_ok by blast
        let ?sel = "concat (map joinVal vals)"
        let ?h5 = "h @ [Cells [], Cells ?d, Vals vals,
                        Strings (rev (map (\<lambda>c. [c]) ?sel)), Strings (map lc tw)]"
        let ?h7 = "h @ [Cells [], Cells ?d, Vals vals,
                        Strings (rev (map (\<lambda>c. [c]) ?sel)), Strings (map lc tw),
                        Cells (rev ?d)]"
        have n5: "cellsAt ?h5 (Suc (length h)) = ?d"
          using cellsAt_new [of 1 "[Cells [], Cells ?d, Vals vals,
                        Strings (rev (map (\<lambda>c. [c]) ?sel)), Strings (map lc tw)]" ?d h] by simp
        have n7: "cellsAt ?h7 (Suc (length h)) = ?d"
          using cellsAt_new [of 1 "[Cells [], Cells ?d, Vals vals,
                        Strings (rev (map (\<lambda>c. [c]) ?sel)), Strings (map lc tw),
                        Cells (rev ?d)]" ?d h] by simp
        let ?ra = "Suc (Suc (Suc (Suc (Suc (length h)))))"
        have ra: "length h + 5 = ?ra" by simp
        have r7: "cellsAt ?h7 ?ra = rev ?d"
          unfolding ra [symmetric]
          using cellsAt_new [of 5 "[Cells [], Cells ?d, Vals vals,
                        Strings (rev (map (\<lambda>c. [c]) ?sel)), Strings (map lc tw),
                        Cells (rev ?d)]" "rev ?d" h] by simp
        have pure: "checkSelection lc g cells tw =
            (let (mw, mc) =
                   (if lc ?sel \<in> set (map lc tw) then (Some (lc ?sel), ?d)
                    else if lc (rev ?sel) \<in> set (map lc tw) then (Some (lc (rev ?sel)), rev ?d)
                    else (None, ?d))
             in Inr (case mw of
                  None \<Rightarrow> \<lparr>valid = True, found = False, sr_word = None, sr_direction = None,
                             startCell = None, sr_cells = ?d\<rparr>
                | Some w \<Rightarrow>
                    if w = [] then
                      \<lparr>valid = True, found = False, sr_word = None, sr_direction = None,
                       startCell = None, sr_cells = ?d\<rparr>
                    else
                      \<lparr>valid = True, found = True, sr_word = Some w,
                       sr_direction =
                         (case getLineDirection mc of None \<Rightarrow> None | Some d \<Rightarrow> dirName d),
                       startCell = firstCell mc, sr_cells = mc\<rparr>))"
          using nb v by (simp add: checkSelection_def nsel Let_def split: option.splits)
        have run: "checkSelectionS lc h ga ca ta =
            (if lc ?sel \<in> set (map lc tw) then
               finishS (Some (lc ?sel)) (Suc (length h)) (Suc (length h)) ?h5
             else if lc (rev ?sel) \<in> set (map lc tw) then
               finishS (Some (lc (rev ?sel))) ?ra (Suc (length h)) ?h7
             else finishS None (Suc (length h)) (Suc (length h)) ?h5)"
          using nb v
          by (simp add: checkSelectionS_def ea nS g1 t1 n1 alloc_def put_def Let_def
                concat_rev_singletons nth_append list_update_append)
        show ?thesis
        proof (cases "lc ?sel \<in> set (map lc tw)")
          case True
          obtain r where r: "finishS (Some (lc ?sel)) (Suc (length h)) (Suc (length h)) ?h5
                = Inr (r, ?h5)"
            using finishS_total by blast
          from finishS_deref [OF n5 n5 r] True pure r run show ?thesis
            by (intro exI [of _ r] exI [of _ "[Cells [], Cells ?d, Vals vals,
                        Strings (rev (map (\<lambda>c. [c]) ?sel)), Strings (map lc tw)]"]) simp
        next
          case nf: False
          show ?thesis
          proof (cases "lc (rev ?sel) \<in> set (map lc tw)")
            case True
            obtain r where r: "finishS (Some (lc (rev ?sel))) ?ra (Suc (length h)) ?h7
                = Inr (r, ?h7)"
              using finishS_total by blast
            from finishS_deref [OF n7 r7 r] True nf pure r run show ?thesis
              by (intro exI [of _ r] exI [of _ "[Cells [], Cells ?d, Vals vals,
                        Strings (rev (map (\<lambda>c. [c]) ?sel)), Strings (map lc tw),
                        Cells (rev ?d)]"]) simp
          next
            case False
            obtain r where r: "finishS None (Suc (length h)) (Suc (length h)) ?h5
                = Inr (r, ?h5)"
              using finishS_total by blast
            from finishS_deref [OF n5 n5 r] False nf pure r run show ?thesis
              by (intro exI [of _ r] exI [of _ "[Cells [], Cells ?d, Vals vals,
                        Strings (rev (map (\<lambda>c. [c]) ?sel)), Strings (map lc tw)]"]) simp
          qed
        qed
      qed
    qed
  qed
qed

lemma fetch_append_less: "a < length h \<Longrightarrow> fetch (h @ e) a = fetch h a"
  by (simp add: fetch_def nth_append)

text \<open>
  C8. A call of \<open>checkSelection\<close> on a grid, a cell list and a target list of the store
  returns a result and leaves every array that was in the store as it was, the grid, its rows,
  the cell list and the target list among them: what it writes, it writes to arrays it made.
  The result is the value of \<open>checkSelection\<close> on the contents of the three arguments; a second
  call with the same arguments in the store left by the first returns an equal result, and so
  does a call in any store where the arguments have the same contents.
\<close>

theorem checkSelection_effect_free:
  assumes g: "gridOf h ga = Some g" and c: "fetch h ca = Some (Cells cells)"
    and t: "fetch h ta = Some (Strings tw)"
  shows "\<exists>res h' res2 h''.
      checkSelectionS lc h ga ca ta = Inr (res, h') \<and>
      (\<forall>a < length h. fetch h' a = fetch h a) \<and>
      gridOf h' ga = Some g \<and> fetch h' ta = Some (Strings tw) \<and>
      fetch h' ca = Some (Cells cells) \<and>
      checkSelection lc g cells tw = Inr (deref h' res) \<and>
      checkSelectionS lc h' ga ca ta = Inr (res2, h'') \<and>
      deref h'' res2 = deref h' res \<and>
      (\<forall>k ga' ca' ta' res3 k'.
          gridOf k ga' = Some g \<and> fetch k ca' = Some (Cells cells) \<and>
          fetch k ta' = Some (Strings tw) \<and>
          checkSelectionS lc k ga' ca' ta' = Inr (res3, k') \<longrightarrow> deref k' res3 = deref h' res)"
proof -
  from checkSelectionS_sound [OF g c t, of lc] obtain res ext where
    r: "checkSelectionS lc h ga ca ta = Inr (res, h @ ext)"
    "checkSelection lc g cells tw = Inr (deref (h @ ext) res)"
    by blast
  let ?h' = "h @ ext"
  have old: "\<forall>a < length h. fetch ?h' a = fetch h a" by (simp add: fetch_append_less)
  have g': "gridOf ?h' ga = Some g" using g by (rule gridOf_append)
  have t': "fetch ?h' ta = Some (Strings tw)" using t by (rule fetch_append_old)
  have c': "fetch ?h' ca = Some (Cells cells)" using c by (rule fetch_append_old)
  from checkSelectionS_sound [OF g' c' t', of lc] obtain res2 ext2 where
    r2: "checkSelectionS lc ?h' ga ca ta = Inr (res2, ?h' @ ext2)"
    "checkSelection lc g cells tw = Inr (deref (?h' @ ext2) res2)"
    by blast
  have same: "deref (?h' @ ext2) res2 = deref ?h' res" using r(2) r2(2) by simp
  have any: "\<forall>k ga' ca' ta' res3 k'.
          gridOf k ga' = Some g \<and> fetch k ca' = Some (Cells cells) \<and>
          fetch k ta' = Some (Strings tw) \<and>
          checkSelectionS lc k ga' ca' ta' = Inr (res3, k') \<longrightarrow> deref k' res3 = deref ?h' res"
  proof (intro allI impI)
    fix k ga' ca' ta' res3 k'
    assume a: "gridOf k ga' = Some g \<and> fetch k ca' = Some (Cells cells) \<and>
          fetch k ta' = Some (Strings tw) \<and>
          checkSelectionS lc k ga' ca' ta' = Inr (res3, k')"
    then have a1: "gridOf k ga' = Some g" and a2: "fetch k ca' = Some (Cells cells)"
      and a3: "fetch k ta' = Some (Strings tw)"
      and a4: "checkSelectionS lc k ga' ca' ta' = Inr (res3, k')" by blast+
    from checkSelectionS_sound [OF a1 a2 a3, of lc] obtain r3 e3 where
      "checkSelectionS lc k ga' ca' ta' = Inr (r3, k @ e3)"
      "checkSelection lc g cells tw = Inr (deref (k @ e3) r3)" by blast
    then show "deref k' res3 = deref ?h' res" using a4 r(2) by simp
  qed
  from r(1) old g' t' c' r(2) r2(1) same any show ?thesis by blast
qed

lemma generateGridS_eq:
  assumes "fetch h wa = Some (Strings words)"
  shows "generateGridS lc h wa n lang rnd =
     (case generateGrid lc words n lang rnd of
        Inl e \<Rightarrow> Inl e
      | Inr r \<Rightarrow> Inr (r, h @ [Strings (sortWords words)]))"
  using assms
  by (simp add: generateGridS_def generateGrid_def alloc_def put_def fetch_def Let_def
        split: sum.splits prod.splits)

text \<open>
  C9. \<open>generateGrid\<close> returns a result in which every input word is in exactly one of the two
  lists: the input words are the skipped words, in their original casing, together with the
  words \<open>placed\<close>, whose lowercase forms are the words of the placements in order; so the two
  lengths add up to the number of input words. The input array is left as it was, as is every
  array of the store: the sort writes to a copy.
\<close>

theorem generateGrid_partition:
  assumes "fetch h wa = Some (Strings words)"
  shows "\<exists>r h' placed.
      generateGridS lc h wa n lang rnd = Inr (r, h') \<and>
      generateGrid lc words n lang rnd = Inr r \<and>
      (\<forall>a < length h. fetch h' a = fetch h a) \<and>
      fetch h' wa = Some (Strings words) \<and>
      length (placements r) + length (skipped r) = length words \<and>
      mset words = mset placed + mset (skipped r) \<and>
      map p_word (placements r) = map lc placed"
proof -
  from generateGrid_ok [of lc words n lang rnd] obtain r pl where
    r: "generateGrid lc words n lang rnd = Inr r"
    "mset words = mset pl + mset (skipped r)" "map p_word (placements r) = map lc pl"
    by blast
  let ?h' = "h @ [Strings (sortWords words)]"
  have run: "generateGridS lc h wa n lang rnd = Inr (r, ?h')"
    using generateGridS_eq [OF assms, of lc n lang rnd] r(1) by simp
  have old: "\<forall>a < length h. fetch ?h' a = fetch h a" by (simp add: fetch_append_less)
  have w: "fetch ?h' wa = Some (Strings words)" using assms by (rule fetch_append_old)
  have "size (mset words) = size (mset pl + mset (skipped r))" using r(2) by (rule arg_cong)
  then have "length words = length pl + length (skipped r)" by simp
  moreover have "length (placements r) = length pl"
    using r(3) by (metis length_map)
  ultimately have len: "length (placements r) + length (skipped r) = length words" by simp
  from run r(1) old w len r(2,3) show ?thesis by blast
qed

lemmas eval_store =
  checkSelectionS_def normalizeSelectionS_def finishS_def alloc_def fetch_def put_def
  gridOf_def rowOf_def cellsAt_def catStore_def list_update_numeral

lemma catStore_grid: "gridOf catStore 0 = Some catGrid"
  by (simp add: eval_store catGrid_def)

text \<open>The reverse drag over "cat": the arrays of the store stay, six arrays are added.\<close>

theorem checkSelection_effect_free_witness:
  "checkSelectionS asciiLower catStore 0 4 5 =
     Inr (\<lparr>s_valid = True, s_found = True, s_word = Some [99, 97, 116],
           s_direction = Some ''right'', s_startCell = Some \<lparr>row = 0, col = 0\<rparr>,
           s_cells = 11\<rparr>,
          catStore @
            [Cells [],
             Cells [\<lparr>row = 0, col = 2\<rparr>, \<lparr>row = 0, col = 1\<rparr>, \<lparr>row = 0, col = 0\<rparr>],
             Vals [Ch 116, Ch 97, Ch 99],
             Strings [[99], [97], [116]], Strings [[99, 97, 116]],
             Cells [\<lparr>row = 0, col = 0\<rparr>, \<lparr>row = 0, col = 1\<rparr>, \<lparr>row = 0, col = 2\<rparr>]])"
  using checkSelection_effect_free [of catStore 0 catGrid 4
      "[\<lparr>row = 0, col = 2\<rparr>, \<lparr>row = 0, col = 1\<rparr>, \<lparr>row = 0, col = 0\<rparr>]" 5 "[[99, 97, 116]]"
      asciiLower]
  by (simp add: eval_store eval_validator cong: eval_cong)

text \<open>
  "Cat" and "ABCDEFGHIJ" in a grid of side 3: "cat" is placed, "ABCDEFGHIJ" is skipped as it
  was written, and the input array keeps its order while the copy is sorted.
\<close>

theorem generateGrid_partition_witness:
  "generateGridS asciiLower wordStore 0 3 ''en'' (\<lambda>i. 0) =
     Inr (\<lparr>g_grid = [[Ch 99, Ch 97, Ch 97], [Ch 97, Ch 97, Ch 97], [Ch 116, Ch 97, Ch 97]],
           placements =
             [\<lparr>p_word = [99, 97, 116], p_row = 0, p_col = 0, p_direction = ''down'',
               p_dr = 1, p_dc = 0,
               p_cells = [\<lparr>row = 0, col = 0\<rparr>, \<lparr>row = 1, col = 0\<rparr>, \<lparr>row = 2, col = 0\<rparr>]\<rparr>],
           skipped = [[65, 66, 67, 68, 69, 70, 71, 72, 73, 74]]\<rparr>,
          [Strings [[67, 97, 116], [65, 66, 67, 68, 69, 70, 71, 72, 73, 74]],
           Strings [[65, 66, 67, 68, 69, 70, 71, 72, 73, 74], [67, 97, 116]]])"
  using generateGrid_partition [of wordStore 0
      "[[67, 97, 116], [65, 66, 67, 68, 69, 70, 71, 72, 73, 74]]" asciiLower 3 "''en''" "\<lambda>i. 0"]
  by (simp add: generateGridS_def alloc_def fetch_def put_def wordStore_def eval_generator
        cong: eval_cong)

end
